theory Spec2Isabelle
  imports Main "HOL-Library.Multiset"
begin

section \<open>Domain model (internal/domain)\<close>

text \<open>
  A \<open>time.Time\<close> is modelled by the instant it denotes, in nanoseconds since the Unix
  epoch; \<open>Before\<close> compares instants, as \<open>time.Time.Before\<close> does.
\<close>

type_synonym time = int

definition Before :: "time \<Rightarrow> time \<Rightarrow> bool" where
  "Before t u = (t < u)"

record News =
  ID :: string
  Title :: string
  Description :: string
  URL :: string
  Source :: string
  PublishedAt :: time

type_synonym NewsList = "News list"

text \<open>
  Go errors and panics are values. \<open>PanicSliceBounds\<close> is the run-time panic
  "slice bounds out of range" of a slice expression; the other constructors are the
  \<open>error\<close> values the code returns or receives from its libraries.
  \<open>ErrWrapped msg err\<close> is \<open>fmt.Errorf(msg + ": %w", err)\<close>.
\<close>

datatype error =
    ErrCacheMiss
  | ErrNotExist
  | ErrIO
  | ErrMarshal
  | ErrUnmarshal
  | ErrRequest
  | ErrTransport
  | ErrHTTPStatus int string
  | ErrCollecting string error
  | ErrRedis
  | ErrWrapped string error
  | PanicSliceBounds int

text \<open>
  \<open>NewsList.LimitTo\<close>: the whole list when \<open>len(nl) <= limit\<close>, otherwise the slice
  \<open>nl[:limit]\<close>. On that branch \<open>limit < len(nl)\<close>, so the slice expression is in range
  exactly when \<open>limit\<close> is not negative; a negative bound panics.
\<close>

definition LimitTo :: "NewsList \<Rightarrow> int \<Rightarrow> error + NewsList" where
  "LimitTo nl limit =
     (if int (length nl) \<le> limit then Inr nl
      else if limit < 0 then Inl (PanicSliceBounds limit)
      else Inr (take (nat limit) nl))"

text \<open>
  \<open>NewsList.SortByDate\<close>: the bubble sort of the source, on indices. The body of the
  inner loop swaps positions \<open>j\<close> and \<open>j+1\<close> when the first is published before the
  second; the inner loop runs \<open>j\<close> over \<open>0 .. len-i-2\<close>, the outer loop \<open>i\<close> over
  \<open>0 .. len-2\<close> (both empty when the bound is not positive).
\<close>

definition swap_step :: "nat \<Rightarrow> NewsList \<Rightarrow> NewsList" where
  "swap_step j nl =
     (if Before (PublishedAt (nl ! j)) (PublishedAt (nl ! (j + 1)))
      then nl[j := nl ! (j + 1), j + 1 := nl ! j]
      else nl)"

definition inner_loop :: "nat \<Rightarrow> NewsList \<Rightarrow> NewsList" where
  "inner_loop i nl = fold swap_step [0 ..< length nl - i - 1] nl"

definition SortByDate :: "NewsList \<Rightarrow> NewsList" where
  "SortByDate nl = fold inner_loop [0 ..< length nl - 1] nl"

section \<open>Repository interface (domain.NewsRepository)\<close>

text \<open>
  An implementation of the interface acts on a store of type \<open>'r\<close> (a file system, a
  cache); each method takes the store and returns it updated, with the Go result.
\<close>

record 'r NewsRepository =
  SaveNews :: "NewsList \<Rightarrow> 'r \<Rightarrow> error option \<times> 'r"
  GetLatestNews :: "int \<Rightarrow> 'r \<Rightarrow> (error + NewsList) \<times> 'r"

section \<open>Aggregator (internal/aggregator)\<close>

record 'r Aggregator =
  news :: NewsList
  repository :: "'r NewsRepository option"

definition New :: "'r NewsRepository option \<Rightarrow> 'r Aggregator" where
  "New repo = \<lparr>news = [], repository = repo\<rparr>"

text \<open>
  \<open>removeDuplicates\<close>: one pass over the list with the map \<open>seen\<close> (absent keys read
  as \<open>false\<close>) and the output slice \<open>uniqueNews\<close>.
\<close>

definition dedup_step :: "News \<Rightarrow> (string \<Rightarrow> bool) \<times> NewsList \<Rightarrow> (string \<Rightarrow> bool) \<times> NewsList" where
  "dedup_step n st =
     (case st of (seen, uniqueNews) \<Rightarrow>
        (if \<not> seen (ID n) then (seen(ID n := True), uniqueNews @ [n])
         else (seen, uniqueNews)))"

definition removeDuplicates :: "'r Aggregator \<Rightarrow> 'r Aggregator" where
  "removeDuplicates a = a\<lparr>news := snd (fold dedup_step (news a) (\<lambda>k. False, []))\<rparr>"

text \<open>
  \<open>addNews\<close>: append, deduplicate, sort, cap at 1000, then save to the repository when
  there is one; a failed save is logged only, the store is whatever the repository left.
\<close>

definition addNews :: "NewsList \<Rightarrow> 'r Aggregator \<times> 'r \<Rightarrow> 'r Aggregator \<times> 'r" where
  "addNews newNews st =
     (case st of (a, r) \<Rightarrow>
        let a1 = a\<lparr>news := news a @ newNews\<rparr>;
            a2 = removeDuplicates a1;
            a3 = a2\<lparr>news := SortByDate (news a2)\<rparr>;
            a4 = (if length (news a3) > 1000 then a3\<lparr>news := take 1000 (news a3)\<rparr> else a3)
        in (case repository a4 of
              None \<Rightarrow> (a4, r)
            | Some repo \<Rightarrow> (a4, snd (SaveNews repo (news a4) r))))"

definition Aggregator_GetLatestNews :: "'r Aggregator \<Rightarrow> int \<Rightarrow> error + NewsList" where
  "Aggregator_GetLatestNews a limit = LimitTo (news a) limit"

definition LoadFromRepository :: "'r Aggregator \<times> 'r \<Rightarrow> error option \<times> 'r Aggregator \<times> 'r" where
  "LoadFromRepository st =
     (case st of (a, r) \<Rightarrow>
        (case repository a of
           None \<Rightarrow> (None, a, r)
         | Some repo \<Rightarrow>
             (case GetLatestNews repo 1000 r of
                (Inl err, r') \<Rightarrow> (Some err, a, r')
              | (Inr nl, r') \<Rightarrow> (None, a\<lparr>news := SortByDate nl\<rparr>, r'))))"

definition SaveToRepository :: "'r Aggregator \<times> 'r \<Rightarrow> error option \<times> 'r Aggregator \<times> 'r" where
  "SaveToRepository st =
     (case st of (a, r) \<Rightarrow>
        (case repository a of
           None \<Rightarrow> (None, a, r)
         | Some repo \<Rightarrow> (case SaveNews repo (news a) r of (e, r') \<Rightarrow> (e, a, r'))))"

section \<open>File repository (internal/storage)\<close>

text \<open>
  The environment of the file repository. A document of type \<open>'d\<close> is what
  \<open>encoding/json\<close> writes and reads; the two library functions are parameters of the
  model. A path of the file system is in one of four states: no file, in a directory that
  exists (\<open>NoFile\<close>: a read reports that the file does not exist, a write creates it);
  no file, in a directory that does not exist (\<open>NoDir\<close>: a read reports that the file
  does not exist, and a write fails the same way); a file whose reads and writes fail
  (\<open>Locked\<close>); a file with a document (\<open>Content\<close>). \<open>os.ReadFile\<close> and
  \<open>os.WriteFile\<close> act on one path.
\<close>

record 'd codec =
  Marshal :: "NewsList \<Rightarrow> error + 'd"
  Unmarshal :: "'d \<Rightarrow> error + NewsList"

datatype 'd fentry = NoFile | NoDir | Locked | Content 'd

type_synonym 'd fsys = "string \<Rightarrow> 'd fentry"

definition ReadFile :: "string \<Rightarrow> 'd fsys \<Rightarrow> error + 'd" where
  "ReadFile path fs =
     (case fs path of
        NoFile \<Rightarrow> Inl ErrNotExist
      | NoDir \<Rightarrow> Inl ErrNotExist
      | Locked \<Rightarrow> Inl ErrIO
      | Content d \<Rightarrow> Inr d)"

definition WriteFile :: "string \<Rightarrow> 'd \<Rightarrow> 'd fsys \<Rightarrow> error option \<times> 'd fsys" where
  "WriteFile path d fs =
     (case fs path of
        NoFile \<Rightarrow> (None, fs(path := Content d))
      | NoDir \<Rightarrow> (Some ErrNotExist, fs)
      | Locked \<Rightarrow> (Some ErrIO, fs)
      | Content old \<Rightarrow> (None, fs(path := Content d)))"

definition IsNotExist :: "error \<Rightarrow> bool" where
  "IsNotExist err = (err = ErrNotExist)"

record FileCache =
  filePath :: string

definition NewFileCache :: "string \<Rightarrow> FileCache" where
  "NewFileCache path = \<lparr>filePath = path\<rparr>"

definition FileCache_SaveNews ::
  "'d codec \<Rightarrow> FileCache \<Rightarrow> NewsList \<Rightarrow> 'd fsys \<Rightarrow> error option \<times> 'd fsys" where
  "FileCache_SaveNews js f nl fs =
     (case Marshal js nl of
        Inl err \<Rightarrow> (Some err, fs)
      | Inr d \<Rightarrow> WriteFile (filePath f) d fs)"

definition FileCache_GetLatestNews ::
  "'d codec \<Rightarrow> FileCache \<Rightarrow> int \<Rightarrow> 'd fsys \<Rightarrow> (error + NewsList) \<times> 'd fsys" where
  "FileCache_GetLatestNews js f limit fs =
     (case ReadFile (filePath f) fs of
        Inl err \<Rightarrow> (if IsNotExist err then (Inr [], fs) else (Inl err, fs))
      | Inr d \<Rightarrow>
          (case Unmarshal js d of
             Inl err \<Rightarrow> (Inl err, fs)
           | Inr nl \<Rightarrow> (LimitTo nl limit, fs)))"

text \<open>The file repository as a \<open>domain.NewsRepository\<close>.\<close>

definition FileCache_repo :: "'d codec \<Rightarrow> FileCache \<Rightarrow> 'd fsys NewsRepository" where
  "FileCache_repo js f =
     \<lparr>SaveNews = FileCache_SaveNews js f, GetLatestNews = FileCache_GetLatestNews js f\<rparr>"

text \<open>
  What \<open>encoding/json\<close> does to a list of news, as far as the file repository sees it.
  A string comes back from \<open>json.Marshal\<close> followed by \<open>json.Unmarshal\<close> with every
  byte that does not begin a well-formed UTF-8 sequence replaced by U+FFFD (the bytes
  \<open>EF BF BD\<close>): \<open>rune_len\<close> is the length of the well-formed sequence at the head of
  a string, \<open>0\<close> when there is none, after the table of \<open>utf8.DecodeRuneInString\<close>. A
  publication instant comes back as it is; \<open>json.Marshal\<close> fails on a time that
  \<open>Time.MarshalJSON\<close> refuses (a year outside 0..9999), which the parameter
  \<open>marshalable\<close> decides. A document is identified with the list it decodes to;
  \<open>Malformed\<close> stands for the contents that do not decode.
\<close>

definition continuation :: "char \<Rightarrow> bool" where
  "continuation c = ((128 :: nat) \<le> of_char c \<and> (of_char c :: nat) \<le> 191)"

definition second_lo :: "nat \<Rightarrow> nat" where
  "second_lo s0 = (if s0 = 224 then 160 else if s0 = 240 then 144 else 128)"

definition second_hi :: "nat \<Rightarrow> nat" where
  "second_hi s0 = (if s0 = 237 then 159 else if s0 = 244 then 143 else 191)"

definition second_ok :: "char \<Rightarrow> char \<Rightarrow> bool" where
  "second_ok c0 c1 = (second_lo (of_char c0) \<le> of_char c1 \<and> (of_char c1 :: nat) \<le> second_hi (of_char c0))"

definition rune_len :: "string \<Rightarrow> nat" where
  "rune_len s =
     (case s of
        [] \<Rightarrow> 0
      | c0 # r \<Rightarrow>
          (if (of_char c0 :: nat) < 128 then 1
           else if (of_char c0 :: nat) < 194 \<or> (244 :: nat) < of_char c0 then 0
           else if (of_char c0 :: nat) < 224 then
             (case r of c1 # r1 \<Rightarrow> (if second_ok c0 c1 then 2 else 0) | [] \<Rightarrow> 0)
           else if (of_char c0 :: nat) < 240 then
             (case r of
                c1 # c2 # r2 \<Rightarrow> (if second_ok c0 c1 \<and> continuation c2 then 3 else 0)
              | _ \<Rightarrow> 0)
           else
             (case r of
                c1 # c2 # c3 # r3 \<Rightarrow>
                  (if second_ok c0 c1 \<and> continuation c2 \<and> continuation c3 then 4 else 0)
              | _ \<Rightarrow> 0)))"

function json_string :: "string \<Rightarrow> string" where
  "json_string [] = []"
| "json_string (c # cs) =
     (if rune_len (c # cs) = 0 then [CHR 0xEF, CHR 0xBF, CHR 0xBD] @ json_string cs
      else take (rune_len (c # cs)) (c # cs) @ json_string (drop (rune_len (c # cs)) (c # cs)))"
  by pat_completeness auto
termination
  by (relation "measure length") auto

definition json_News :: "News \<Rightarrow> News" where
  "json_News n =
     \<lparr>ID = json_string (ID n),
      Title = json_string (Title n),
      Description = json_string (Description n),
      URL = json_string (URL n),
      Source = json_string (Source n),
      PublishedAt = PublishedAt n\<rparr>"

datatype document = Document NewsList | Malformed

definition json_codec :: "(time \<Rightarrow> bool) \<Rightarrow> document codec" where
  "json_codec marshalable =
     \<lparr>Marshal = (\<lambda>nl. if list_all (\<lambda>n. marshalable (PublishedAt n)) nl
                         then Inr (Document (map json_News nl)) else Inl ErrMarshal),
      Unmarshal = (\<lambda>d. case d of Document nl \<Rightarrow> Inr nl | Malformed \<Rightarrow> Inl ErrUnmarshal)\<rparr>"

text \<open>
  \<open>utf8.ValidString\<close>: a string is well-formed UTF-8 when it is a sequence of
  well-formed encodings.
\<close>

function valid_utf8 :: "string \<Rightarrow> bool" where
  "valid_utf8 [] = True"
| "valid_utf8 (c # cs) =
     (if rune_len (c # cs) = 0 then False
      else valid_utf8 (drop (rune_len (c # cs)) (c # cs)))"
  by pat_completeness auto
termination
  by (relation "measure length") auto

section \<open>Cache-aside layer (internal/cache)\<close>

text \<open>
  \<open>fmt.Sprintf("%d", n)\<close>: the decimal digits, with a minus sign for a negative number.
\<close>

fun digits :: "nat \<Rightarrow> string" where
  "digits n = (if n < 10 then [''0123456789'' ! n] else digits (n div 10) @ [''0123456789'' ! (n mod 10)])"

declare digits.simps [simp del]

definition Sprintf_d :: "int \<Rightarrow> string" where
  "Sprintf_d n = (if n < 0 then CHR ''-'' # digits (nat (- n)) else digits (nat n))"

definition NewsCacheKey :: "int \<Rightarrow> string" where
  "NewsCacheKey limit = ''news:latest:'' @ Sprintf_d limit"

text \<open>
  The \<open>Cache\<close> interface, over a store of type \<open>'c\<close>. \<open>Get\<close> fills its destination
  and returns an error; here it returns the value or the error. The values cached by this
  layer are news lists.
\<close>

record 'c Cache =
  cache_Set :: "string \<Rightarrow> NewsList \<Rightarrow> int \<Rightarrow> 'c \<Rightarrow> error option \<times> 'c"
  cache_Get :: "string \<Rightarrow> 'c \<Rightarrow> error + NewsList"
  cache_Delete :: "string \<Rightarrow> 'c \<Rightarrow> error option \<times> 'c"

text \<open>
  \<open>MemoryCache\<close>: the map of items with their expiry instants and the default time to
  live. The field \<open>clock\<close> is what \<open>time.Now()\<close> returns; the environment advances it
  between calls.
\<close>

record cacheItem =
  item_value :: NewsList
  expiresAt :: time

record MemoryCache =
  data :: "string \<rightharpoonup> cacheItem"
  mc_ttl :: int
  clock :: time

definition MemoryCache_Set ::
  "string \<Rightarrow> NewsList \<Rightarrow> int \<Rightarrow> MemoryCache \<Rightarrow> error option \<times> MemoryCache" where
  "MemoryCache_Set key v ttl m =
     (let ttl' = (if ttl = 0 then mc_ttl m else ttl)
      in (None, m\<lparr>data := (data m)(key \<mapsto> \<lparr>item_value = v, expiresAt = clock m + ttl'\<rparr>)\<rparr>))"

definition MemoryCache_Get :: "'d codec \<Rightarrow> string \<Rightarrow> MemoryCache \<Rightarrow> error + NewsList" where
  "MemoryCache_Get js key m =
     (case data m key of
        None \<Rightarrow> Inl ErrCacheMiss
      | Some it \<Rightarrow>
          (if clock m > expiresAt it then Inl ErrCacheMiss
           else (case Marshal js (item_value it) of
                   Inl err \<Rightarrow> Inl err
                 | Inr d \<Rightarrow> Unmarshal js d)))"

definition MemoryCache_Delete :: "string \<Rightarrow> MemoryCache \<Rightarrow> error option \<times> MemoryCache" where
  "MemoryCache_Delete key m = (None, m\<lparr>data := (data m)(key := None)\<rparr>)"

definition MemoryCache_cache :: "'d codec \<Rightarrow> MemoryCache Cache" where
  "MemoryCache_cache js =
     \<lparr>cache_Set = MemoryCache_Set, cache_Get = MemoryCache_Get js, cache_Delete = MemoryCache_Delete\<rparr>"

text \<open>
  \<open>NewMemoryCache\<close>: an empty map, with a default time to live of five minutes
  (durations are in nanoseconds). The cleanup interval only sets the ticker of the sweep.
  One sweep of \<open>cleanup\<close> deletes the expired items.
\<close>

definition NewMemoryCache :: "int \<Rightarrow> int \<Rightarrow> time \<Rightarrow> MemoryCache" where
  "NewMemoryCache ttl cleanupInterval now =
     \<lparr>data = Map.empty, mc_ttl = (if ttl = 0 then 300000000000 else ttl), clock = now\<rparr>"

definition cleanup :: "MemoryCache \<Rightarrow> MemoryCache" where
  "cleanup m =
     m\<lparr>data := (\<lambda>key. case data m key of
                      None \<Rightarrow> None
                    | Some it \<Rightarrow> (if clock m > expiresAt it then None else Some it))\<rparr>"

text \<open>
  \<open>RedisCache\<close>, with the Redis client as its environment: the entries of the server,
  the key prefix, the default time to live, and \<open>client_error\<close>, the error that a call of
  the client returns at this moment, if any (the server cannot be reached); the
  environment changes it between calls. The server expires entries by itself, which is
  the environment removing an entry. A key that the server does not hold is the client's
  \<open>redis.Nil\<close>, returned as \<open>ErrCacheMiss\<close>.
\<close>

record 'd RedisCache =
  entries :: "string \<rightharpoonup> 'd"
  prefix :: string
  rc_ttl :: int
  client_error :: "error option"

definition RedisCache_Set ::
  "'d codec \<Rightarrow> string \<Rightarrow> NewsList \<Rightarrow> int \<Rightarrow> 'd RedisCache \<Rightarrow> error option \<times> 'd RedisCache" where
  "RedisCache_Set js key v ttl r =
     (case Marshal js v of
        Inl err \<Rightarrow> (Some (ErrWrapped ''failed to marshal value'' err), r)
      | Inr d \<Rightarrow>
          (case client_error r of
             Some err \<Rightarrow> (Some err, r)
           | None \<Rightarrow> (None, r\<lparr>entries := (entries r)(prefix r @ key \<mapsto> d)\<rparr>)))"

definition RedisCache_Get :: "'d codec \<Rightarrow> string \<Rightarrow> 'd RedisCache \<Rightarrow> error + NewsList" where
  "RedisCache_Get js key r =
     (case client_error r of
        Some err \<Rightarrow> Inl (ErrWrapped ''failed to get from cache'' err)
      | None \<Rightarrow>
          (case entries r (prefix r @ key) of
             None \<Rightarrow> Inl ErrCacheMiss
           | Some d \<Rightarrow>
               (case Unmarshal js d of
                  Inl err \<Rightarrow> Inl (ErrWrapped ''failed to unmarshal cached value'' err)
                | Inr nl \<Rightarrow> Inr nl)))"

definition RedisCache_Delete :: "string \<Rightarrow> 'd RedisCache \<Rightarrow> error option \<times> 'd RedisCache" where
  "RedisCache_Delete key r =
     (case client_error r of
        Some err \<Rightarrow> (Some err, r)
      | None \<Rightarrow> (None, r\<lparr>entries := (entries r)(prefix r @ key := None)\<rparr>))"

definition RedisCache_cache :: "'d codec \<Rightarrow> 'd RedisCache Cache" where
  "RedisCache_cache js =
     \<lparr>cache_Set = RedisCache_Set js, cache_Get = RedisCache_Get js, cache_Delete = RedisCache_Delete\<rparr>"

text \<open>
  \<open>CachedNewsRepository\<close>: a cache in front of a repository. Its store is the pair of
  the cache's store and the repository's. \<open>GetLatestNews\<close> takes any error of the cache's
  \<open>Get\<close> as a miss. An error of the cache's \<open>Set\<close> or \<open>Delete\<close> is printed and
  otherwise ignored: only the store they leave is used. \<open>SaveNews\<close> deletes the keys of
  the limits 10, 50, 100, 500 and 1000, after a successful write to the repository.
\<close>

record ('c, 'r) CachedNewsRepository =
  cache :: "'c Cache"
  repo :: "'r NewsRepository"
  ttl :: int

definition CachedNewsRepository_GetLatestNews ::
  "('c, 'r) CachedNewsRepository \<Rightarrow> int \<Rightarrow> 'c \<times> 'r \<Rightarrow> (error + NewsList) \<times> 'c \<times> 'r" where
  "CachedNewsRepository_GetLatestNews c limit st =
     (case st of (cs, rs) \<Rightarrow>
        let key = NewsCacheKey limit
        in (case cache_Get (cache c) key cs of
              Inr cachedNews \<Rightarrow> (Inr cachedNews, cs, rs)
            | Inl miss \<Rightarrow>
                (case GetLatestNews (repo c) limit rs of
                   (Inl err, rs') \<Rightarrow> (Inl err, cs, rs')
                 | (Inr nl, rs') \<Rightarrow> (Inr nl, snd (cache_Set (cache c) key nl (ttl c) cs), rs'))))"

definition invalidated_keys :: "string list" where
  "invalidated_keys =
     [NewsCacheKey 10, NewsCacheKey 50, NewsCacheKey 100, NewsCacheKey 500, NewsCacheKey 1000]"

definition CachedNewsRepository_SaveNews ::
  "('c, 'r) CachedNewsRepository \<Rightarrow> NewsList \<Rightarrow> 'c \<times> 'r \<Rightarrow> error option \<times> 'c \<times> 'r" where
  "CachedNewsRepository_SaveNews c nl st =
     (case st of (cs, rs) \<Rightarrow>
        (case SaveNews (repo c) nl rs of
           (Some err, rs') \<Rightarrow> (Some err, cs, rs')
         | (None, rs') \<Rightarrow>
             (None, fold (\<lambda>key cs'. snd (cache_Delete (cache c) key cs')) invalidated_keys cs, rs')))"

definition CachedNewsRepository_repo ::
  "('c, 'r) CachedNewsRepository \<Rightarrow> ('c \<times> 'r) NewsRepository" where
  "CachedNewsRepository_repo c =
     \<lparr>SaveNews = CachedNewsRepository_SaveNews c,
      GetLatestNews = CachedNewsRepository_GetLatestNews c\<rparr>"

text \<open>
  \<open>NewCachedNewsRepository\<close>, and the repository that \<open>main\<close> gives the aggregator when
  the in-memory cache is used: the cache-aside layer over the in-memory cache and the file
  repository.
\<close>

definition NewCachedNewsRepository ::
  "'c Cache \<Rightarrow> 'r NewsRepository \<Rightarrow> int \<Rightarrow> ('c, 'r) CachedNewsRepository" where
  "NewCachedNewsRepository ch rp t = \<lparr>cache = ch, repo = rp, ttl = t\<rparr>"

definition cachedStorage ::
  "(time \<Rightarrow> bool) \<Rightarrow> FileCache \<Rightarrow> int \<Rightarrow> (MemoryCache \<times> document fsys) NewsRepository" where
  "cachedStorage marshalable f t =
     CachedNewsRepository_repo
       (NewCachedNewsRepository (MemoryCache_cache (json_codec marshalable))
          (FileCache_repo (json_codec marshalable) f) t)"

text \<open>A codec for tests: the document of a list is the list itself.\<close>

definition plain_codec :: "NewsList codec" where
  "plain_codec = \<lparr>Marshal = Inr, Unmarshal = Inr\<rparr>"

section \<open>Collector (internal/collector)\<close>

record Source =
  Name :: string
  Source_URL :: string
  Interval :: int

text \<open>An element of the \<open>articles\<close> array of a source's JSON answer.\<close>

record Article =
  Article_Title :: string
  Article_Description :: string
  Article_URL :: string
  Article_PublishedAt :: string

record 'b Response =
  StatusCode :: int
  Body :: 'b

text \<open>
  The environment of one call of \<open>CollectFromSource\<close>: whether \<open>http.NewRequest\<close>
  rejects the URL, what the HTTP client's \<open>Do\<close> returns for it, what the JSON decoder
  makes of a body, what \<open>time.Parse(time.RFC3339, _)\<close> makes of a string, and the readings
  of the clock: \<open>Now k\<close> is what the call's \<open>k\<close>-th use of \<open>time.Now()\<close> returns
  (counting from 0).
\<close>

record 'b environment =
  NewRequest :: "string \<Rightarrow> error option"
  Do :: "string \<Rightarrow> error + 'b Response"
  Decode :: "'b \<Rightarrow> error + Article list"
  Parse_RFC3339 :: "string \<Rightarrow> time option"
  Now :: "nat \<Rightarrow> time"

text \<open>\<open>Time.Unix()\<close>: whole seconds since the epoch.\<close>

definition Unix :: "time \<Rightarrow> int" where
  "Unix t = t div 1000000000"

text \<open>\<open>fmt.Sprintf("%s_%d_%d", name, unix, i)\<close>.\<close>

definition Sprintf_id :: "string \<Rightarrow> int \<Rightarrow> int \<Rightarrow> string" where
  "Sprintf_id name unix i = name @ ''_'' @ Sprintf_d unix @ ''_'' @ Sprintf_d i"

text \<open>
  The loop over the articles: \<open>i\<close> is the index of the next article, \<open>k\<close> the number of
  clock readings made so far. An article whose date does not parse reads the clock for its
  \<open>PublishedAt\<close>; every article then reads the clock for its id.
\<close>

fun articles_loop :: "'b environment \<Rightarrow> Source \<Rightarrow> nat \<Rightarrow> nat \<Rightarrow> Article list \<Rightarrow> NewsList" where
  "articles_loop env source i k [] = []"
| "articles_loop env source i k (article # rest) =
     (case Parse_RFC3339 env (Article_PublishedAt article) of
        Some publishedAt \<Rightarrow>
          \<lparr>ID = Sprintf_id (Name source) (Unix (Now env k)) (int i),
           Title = Article_Title article,
           Description = Article_Description article,
           URL = Article_URL article,
           Source = Name source,
           PublishedAt = publishedAt\<rparr> # articles_loop env source (i + 1) (k + 1) rest
      | None \<Rightarrow>
          \<lparr>ID = Sprintf_id (Name source) (Unix (Now env (k + 1))) (int i),
           Title = Article_Title article,
           Description = Article_Description article,
           URL = Article_URL article,
           Source = Name source,
           PublishedAt = Now env k\<rparr> # articles_loop env source (i + 1) (k + 2) rest)"

definition CollectFromSource :: "'b environment \<Rightarrow> Source \<Rightarrow> error + NewsList" where
  "CollectFromSource env source =
     (case NewRequest env (Source_URL source) of
        Some err \<Rightarrow> Inl err
      | None \<Rightarrow>
          (case Do env (Source_URL source) of
             Inl err \<Rightarrow> Inl err
           | Inr resp \<Rightarrow>
               (if StatusCode resp \<noteq> 200
                then Inl (ErrHTTPStatus (StatusCode resp) (Source_URL source))
                else (case Decode env (Body resp) of
                        Inl err \<Rightarrow> Inl err
                      | Inr articles \<Rightarrow> Inr (articles_loop env source 0 0 articles)))))"

text \<open>
  The task that \<open>collectFromAllSources\<close> starts for one source. \<open>cancelled\<close>: the
  context is done when the task starts. \<open>delivered\<close>: the channel send of the second
  \<open>select\<close> is the case taken, rather than the context's \<open>Done\<close>. The task sends at most one
  value, on the error channel or on the news channel.
\<close>

datatype sent = ErrorChannel error | NewsChannel NewsList

definition collect_task :: "'b environment \<Rightarrow> bool \<Rightarrow> bool \<Rightarrow> Source \<Rightarrow> sent option" where
  "collect_task env cancelled delivered src =
     (if cancelled then None
      else (case CollectFromSource env src of
              Inl err \<Rightarrow>
                (if delivered then Some (ErrorChannel (ErrCollecting (Name src) err)) else None)
            | Inr nl \<Rightarrow>
                (if length nl > 0 then (if delivered then Some (NewsChannel nl) else None)
                 else None)))"

text \<open>
  The index of the clock reading that the id of article \<open>i\<close> uses: one reading for each
  article up to \<open>i\<close>, and one more for each of them whose date does not parse.
\<close>

definition unparsed :: "'b environment \<Rightarrow> Article list \<Rightarrow> nat" where
  "unparsed env articles =
     length (filter (\<lambda>a. Parse_RFC3339 env (Article_PublishedAt a) = None) articles)"

definition id_reading :: "'b environment \<Rightarrow> Article list \<Rightarrow> nat \<Rightarrow> nat" where
  "id_reading env articles i = i + unparsed env (take (Suc i) articles)"

text \<open>
  The index of the clock reading that article \<open>i\<close> takes as its date when its own date
  does not parse: the readings made for the articles before it.
\<close>

definition date_reading :: "'b environment \<Rightarrow> Article list \<Rightarrow> nat \<Rightarrow> nat" where
  "date_reading env articles i = i + unparsed env (take i articles)"

section \<open>HTTP handler (internal/server/v1)\<close>

text \<open>
  A request, as far as \<open>GetNews\<close> reads it: the method and the raw query of the URL
  (what follows the \<open>?\<close>). \<open>r.URL.Query()\<close> parses the raw query into pairs of a key
  and a value; \<open>Values.Get(key)\<close> is the first value of the key, and the empty string
  when the key has no value.
\<close>

record Request =
  Method :: string
  RawQuery :: string

definition Values_Get :: "(string \<times> string) list \<Rightarrow> string \<Rightarrow> string" where
  "Values_Get q key = (case map_of q key of None \<Rightarrow> [] | Some v \<Rightarrow> v)"

datatype payload =
    NewsResponse nat NewsList string
  | ErrorResponse string int string

record Reply =
  status :: int
  body :: payload

definition writeErrorResponse :: "string \<Rightarrow> int \<Rightarrow> Reply" where
  "writeErrorResponse message statusCode =
     \<lparr>status = statusCode, body = ErrorResponse message statusCode ''v1''\<rparr>"

text \<open>
  \<open>Handlers.GetNews\<close>. \<open>query\<close> is the parser behind \<open>r.URL.Query()\<close>, from the raw
  query to its pairs; \<open>atoi\<close> is \<open>strconv.Atoi\<close> (\<open>None\<close> for an error);
  \<open>provider\<close> is the \<open>GetLatestNews\<close> of the news provider, whose panic is the handler's.
  The result is the reply, with the list of the limits the provider was called with.
\<close>

definition serve_news :: "(int \<Rightarrow> error + NewsList) \<Rightarrow> int \<Rightarrow> (error + Reply) \<times> int list" where
  "serve_news provider limit =
     (case provider limit of
        Inl panic \<Rightarrow> (Inl panic, [limit])
      | Inr nl \<Rightarrow> (Inr \<lparr>status = 200, body = NewsResponse (length nl) nl ''v1''\<rparr>, [limit]))"

definition GetNews ::
  "(string \<Rightarrow> (string \<times> string) list) \<Rightarrow> (string \<Rightarrow> int option) \<Rightarrow>
   (int \<Rightarrow> error + NewsList) \<Rightarrow> Request \<Rightarrow> (error + Reply) \<times> int list" where
  "GetNews query atoi provider r =
     (if Method r \<noteq> ''GET'' then (Inr (writeErrorResponse ''Method not allowed'' 405), [])
      else
        let limitStr = Values_Get (query (RawQuery r)) ''limit''
        in if limitStr \<noteq> []
           then (case atoi limitStr of
                   Some parsedLimit \<Rightarrow>
                     (if parsedLimit > 0 \<and> parsedLimit \<le> 1000 then serve_news provider parsedLimit
                      else (Inr (writeErrorResponse
                              ''Invalid limit parameter. Must be between 1 and 1000'' 400), []))
                 | None \<Rightarrow>
                     (Inr (writeErrorResponse
                        ''Invalid limit parameter. Must be between 1 and 1000'' 400), []))
           else serve_news provider 100)"

text \<open>
  A model of \<open>strconv.Atoi\<close> for the examples: an optional sign, then one or more decimal
  digits, within the 64-bit range.
\<close>

fun digits_value :: "nat \<Rightarrow> string \<Rightarrow> nat option" where
  "digits_value acc [] = Some acc"
| "digits_value acc (c # cs) =
     (if (48 :: nat) \<le> of_char c \<and> (of_char c :: nat) \<le> 57
      then digits_value (10 * acc + (of_char c - 48)) cs
      else None)"

definition unsigned_value :: "string \<Rightarrow> nat option" where
  "unsigned_value s = (if s = [] then None else digits_value 0 s)"

definition Atoi :: "string \<Rightarrow> int option" where
  "Atoi s =
     (case (case s of
              [] \<Rightarrow> None
            | c # cs \<Rightarrow>
                (if c = CHR ''-'' then map_option (\<lambda>n. - int n) (unsigned_value cs)
                 else if c = CHR ''+'' then map_option int (unsigned_value cs)
                 else map_option int (unsigned_value s))) of
        None \<Rightarrow> None
      | Some v \<Rightarrow> (if - (2 ^ 63) \<le> v \<and> v < 2 ^ 63 then Some v else None))"

text \<open>
  A model of the parser behind \<open>r.URL.Query()\<close> (\<open>url.ParseQuery\<close>, its error
  dropped) for the examples. The raw query is cut at every \<open>&\<close>; a piece that holds a
  \<open>;\<close> or is empty is skipped; a piece is cut at its first \<open>=\<close> into a key and a value
  (an empty value without \<open>=\<close>); both are unescaped (\<open>%XX\<close> is the byte with that
  hexadecimal code, \<open>+\<close> a space), and the piece is skipped when one of them does not
  unescape.
\<close>

definition ishex :: "char \<Rightarrow> bool" where
  "ishex c =
     (((48 :: nat) \<le> of_char c \<and> (of_char c :: nat) \<le> 57) \<or>
      ((97 :: nat) \<le> of_char c \<and> (of_char c :: nat) \<le> 102) \<or>
      ((65 :: nat) \<le> of_char c \<and> (of_char c :: nat) \<le> 70))"

definition unhex :: "char \<Rightarrow> nat" where
  "unhex c =
     (if (48 :: nat) \<le> of_char c \<and> (of_char c :: nat) \<le> 57 then of_char c - 48
      else if (97 :: nat) \<le> of_char c \<and> (of_char c :: nat) \<le> 102 then of_char c - 97 + 10
      else if (65 :: nat) \<le> of_char c \<and> (of_char c :: nat) \<le> 70 then of_char c - 65 + 10
      else 0)"

fun QueryUnescape :: "string \<Rightarrow> string option" where
  "QueryUnescape [] = Some []"
| "QueryUnescape (c # cs) =
     (if c = CHR ''%'' then
        (case cs of
           a # b # rest \<Rightarrow>
             (if ishex a \<and> ishex b
              then map_option ((#) (char_of (16 * unhex a + unhex b))) (QueryUnescape rest)
              else None)
         | _ \<Rightarrow> None)
      else if c = CHR ''+'' then map_option ((#) (CHR '' '')) (QueryUnescape cs)
      else map_option ((#) c) (QueryUnescape cs))"

fun pieces :: "char \<Rightarrow> string \<Rightarrow> string list" where
  "pieces sep [] = [[]]"
| "pieces sep (c # cs) =
     (if c = sep then [] # pieces sep cs
      else (case pieces sep cs of w # ws \<Rightarrow> (c # w) # ws | [] \<Rightarrow> [[c]]))"

definition parse_pair :: "string \<Rightarrow> (string \<times> string) option" where
  "parse_pair piece =
     (if CHR '';'' \<in> set piece then None
      else if piece = [] then None
      else (case QueryUnescape (takeWhile (\<lambda>c. c \<noteq> CHR ''='') piece) of
              None \<Rightarrow> None
            | Some key \<Rightarrow>
                (case QueryUnescape (drop 1 (dropWhile (\<lambda>c. c \<noteq> CHR ''='') piece)) of
                   None \<Rightarrow> None
                 | Some v \<Rightarrow> Some (key, v))))"

definition ParseQuery :: "string \<Rightarrow> (string \<times> string) list" where
  "ParseQuery raw = List.map_filter parse_pair (pieces (CHR ''&'') raw)"

section \<open>Auxiliary definitions for the proofs\<close>

text \<open>
  One pass of the inner loop, as a function on lists: \<open>bubble m\<close> makes \<open>m\<close> comparisons
  of neighbours from the front. It is shown below to be what the index loop computes.
\<close>

fun bubble :: "nat \<Rightarrow> NewsList \<Rightarrow> NewsList" where
  "bubble (Suc m) (x # y # xs) =
     (if Before (PublishedAt x) (PublishedAt y) then y # bubble m (x # xs)
      else x # bubble m (y # xs))"
| "bubble m xs = xs"

text \<open>The order \<open>SortByDate\<close> establishes: every item is at least as recent as its successors.\<close>

definition newer_first :: "NewsList \<Rightarrow> bool" where
  "newer_first nl = sorted_wrt (\<lambda>a b. PublishedAt b \<le> PublishedAt a) nl"

text \<open>A test item with the given id and publication instant.\<close>

definition item :: "string \<Rightarrow> time \<Rightarrow> News" where
  "item i t = \<lparr>ID = i, Title = [], Description = [], URL = [], Source = [], PublishedAt = t\<rparr>"

text \<open>
  What \<open>removeDuplicates\<close> computes, as a function on lists: the first item of every id,
  in list order.
\<close>

fun first_wins :: "NewsList \<Rightarrow> NewsList" where
  "first_wins [] = []"
| "first_wins (x # xs) = x # first_wins (filter (\<lambda>y. ID y \<noteq> ID x) xs)"

text \<open>The list that \<open>addNews\<close> leaves: deduplicated, sorted, capped.\<close>

definition merged :: "NewsList \<Rightarrow> NewsList \<Rightarrow> NewsList" where
  "merged l b = take 1000 (SortByDate (first_wins (l @ b)))"

text \<open>
  Test data for the cap: 1000 items with pairwise different ids (\<open>z\<close>, \<open>zz\<close>, ...), all
  published at instant 1.
\<close>

definition filler :: "nat \<Rightarrow> News" where
  "filler k = item (replicate (Suc k) (CHR ''z'')) 1"

definition fillers :: NewsList where
  "fillers = map filler [0 ..< 1000]"

text \<open>
  The states of an aggregator over the file repository: the fresh one, and those that
  \<open>addNews\<close>, \<open>LoadFromRepository\<close> and \<open>SaveToRepository\<close> produce from them, in any
  state of the file system.
\<close>

inductive reachable :: "'d codec \<Rightarrow> FileCache \<Rightarrow> 'd fsys Aggregator \<Rightarrow> bool"
  for js :: "'d codec" and f :: FileCache where
  reach_New: "reachable js f (New (Some (FileCache_repo js f)))"
| reach_addNews: "reachable js f a \<Longrightarrow> reachable js f (fst (addNews newNews (a, fs)))"
| reach_Load: "reachable js f a \<Longrightarrow> reachable js f (fst (snd (LoadFromRepository (a, fs))))"
| reach_Save: "reachable js f a \<Longrightarrow> reachable js f (fst (snd (SaveToRepository (a, fs))))"

text \<open>
  The states of an aggregator over the cache-aside layer, with the store of its in-memory
  cache: the fresh aggregator with the fresh cache, and what the aggregator's operations,
  the passing of time and the sweep of the cache produce from them, in any state of the
  file system.
\<close>

inductive reachable_cached ::
  "(time \<Rightarrow> bool) \<Rightarrow> FileCache \<Rightarrow> int \<Rightarrow> (MemoryCache \<times> document fsys) Aggregator \<Rightarrow> MemoryCache \<Rightarrow> bool"
  for mk :: "time \<Rightarrow> bool" and f :: FileCache and t :: int where
  rc_New: "reachable_cached mk f t (New (Some (cachedStorage mk f t))) (NewMemoryCache d i now)"
| rc_addNews: "reachable_cached mk f t a m \<Longrightarrow>
     reachable_cached mk f t (fst (addNews newNews (a, (m, fs))))
       (fst (snd (addNews newNews (a, (m, fs)))))"
| rc_Load: "reachable_cached mk f t a m \<Longrightarrow>
     reachable_cached mk f t (fst (snd (LoadFromRepository (a, (m, fs)))))
       (fst (snd (snd (LoadFromRepository (a, (m, fs))))))"
| rc_Save: "reachable_cached mk f t a m \<Longrightarrow>
     reachable_cached mk f t (fst (snd (SaveToRepository (a, (m, fs)))))
       (fst (snd (snd (SaveToRepository (a, (m, fs))))))"
| rc_clock: "reachable_cached mk f t a m \<Longrightarrow> reachable_cached mk f t a (m\<lparr>clock := now\<rparr>)"
| rc_cleanup: "reachable_cached mk f t a m \<Longrightarrow> reachable_cached mk f t a (cleanup m)"

text \<open>
  A save followed by a load on a fresh, empty aggregator over the same repository:
  \<open>saved\<close> is the store that \<open>SaveToRepository\<close> leaves, \<open>reloaded a r\<close> is
  \<open>LoadFromRepository\<close> on \<open>New\<close> of the repository of \<open>a\<close>, in the store \<open>r\<close>.
\<close>

definition saved :: "'r Aggregator \<times> 'r \<Rightarrow> 'r" where
  "saved st = snd (snd (SaveToRepository st))"

definition reloaded :: "'r Aggregator \<Rightarrow> 'r \<Rightarrow> error option \<times> 'r Aggregator \<times> 'r" where
  "reloaded a r = LoadFromRepository (New (repository a), r)"

text \<open>The items of an in-memory cache hold lists of at most 1000 news.\<close>

definition bounded_items :: "MemoryCache \<Rightarrow> bool" where
  "bounded_items m = (\<forall>k it. data m k = Some it \<longrightarrow> length (item_value it) \<le> 1000)"






definition fresh_redis :: "'d RedisCache" where
  "fresh_redis = \<lparr>entries = Map.empty, prefix = ''infohub:'', rc_ttl = 300, client_error = None\<rparr>"

text \<open>
  Test data for the collector: a source, and the environment in which the source answers
  with the given status and two articles, the second with a date that does not parse.
\<close>

definition answer :: "int \<Rightarrow> Article list environment" where
  "answer code =
     \<lparr>NewRequest = (\<lambda>url. None),
      Do = (\<lambda>url. Inr \<lparr>StatusCode = code, Body = [\<lparr>Article_Title = ''t'', Article_Description = ''d'',
              Article_URL = ''u'', Article_PublishedAt = ''2024-01-01T12:00:00Z''\<rparr>,
              \<lparr>Article_Title = ''t2'', Article_Description = ''d2'',
              Article_URL = ''u2'', Article_PublishedAt = ''yesterday''\<rparr>]\<rparr>),
      Decode = Inr,
      Parse_RFC3339 = (\<lambda>s. if s = ''2024-01-01T12:00:00Z'' then Some 1704110400000000000 else None),
      Now = (\<lambda>k. 1704200000000000000 + int k)\<rparr>"

definition tech :: Source where
  "tech = \<lparr>Name = ''tech'', Source_URL = ''http://tech.example/api'', Interval = 0\<rparr>"

section \<open>Read bound\<close>

lemma LimitTo_nonneg: "0 \<le> limit \<Longrightarrow> LimitTo nl limit = Inr (take (nat limit) nl)"
  by (simp add: LimitTo_def)

lemma LimitTo_negative: "limit < 0 \<Longrightarrow> LimitTo nl limit = Inl (PanicSliceBounds limit)"
  by (simp add: LimitTo_def)

text \<open>
  Claim C1, as amended. \<open>GetLatestNews(limit)\<close> of the aggregator returns the first
  \<open>min(limit, len)\<close> items of the current list for every \<open>limit \<ge> 0\<close> (no item for
  \<open>limit = 0\<close>, the whole list when \<open>limit\<close> reaches its length); for \<open>limit < 0\<close> the
  slice expression of \<open>LimitTo\<close> panics, it does not return an empty result.
\<close>

theorem GetLatestNews_read_bound:
  "(0 \<le> limit \<longrightarrow>
      Aggregator_GetLatestNews a limit = Inr (take (nat limit) (news a)) \<and>
      length (take (nat limit) (news a)) = min (nat limit) (length (news a))) \<and>
   (limit < 0 \<longrightarrow> Aggregator_GetLatestNews a limit = Inl (PanicSliceBounds limit))"
proof -
  have "Aggregator_GetLatestNews a limit = Inr (take (nat limit) (news a))" if "0 \<le> limit"
    unfolding Aggregator_GetLatestNews_def using that by (rule LimitTo_nonneg)
  moreover have "Aggregator_GetLatestNews a limit = Inl (PanicSliceBounds limit)" if "limit < 0"
    unfolding Aggregator_GetLatestNews_def using that by (rule LimitTo_negative)
  ultimately show ?thesis by (simp add: min.commute)
qed

theorem GetLatestNews_read_bound_witness:
  "Aggregator_GetLatestNews \<lparr>news = [item ''a'' 3, item ''b'' 2, item ''c'' 1], repository = None\<rparr> 2
     = Inr [item ''a'' 3, item ''b'' 2] \<and>
   Aggregator_GetLatestNews \<lparr>news = [item ''a'' 3, item ''b'' 2, item ''c'' 1], repository = None\<rparr> 0
     = Inr [] \<and>
   Aggregator_GetLatestNews \<lparr>news = [item ''a'' 3, item ''b'' 2, item ''c'' 1], repository = None\<rparr> 7
     = Inr [item ''a'' 3, item ''b'' 2, item ''c'' 1] \<and>
   Aggregator_GetLatestNews \<lparr>news = [item ''a'' 3, item ''b'' 2, item ''c'' 1], repository = None\<rparr> (- 3)
     = Inl (PanicSliceBounds (- 3))"
  using GetLatestNews_read_bound [of 2 "\<lparr>news = [item ''a'' 3, item ''b'' 2, item ''c'' 1], repository = None\<rparr>"]
    GetLatestNews_read_bound [of 0 "\<lparr>news = [item ''a'' 3, item ''b'' 2, item ''c'' 1], repository = None\<rparr>"]
    GetLatestNews_read_bound [of 7 "\<lparr>news = [item ''a'' 3, item ''b'' 2, item ''c'' 1], repository = None\<rparr>"]
    GetLatestNews_read_bound [of "- 3" "\<lparr>news = [item ''a'' 3, item ''b'' 2, item ''c'' 1], repository = None\<rparr>"]
  by (simp add: numeral_2_eq_2)

text \<open>
  The claim as stated fails at a negative limit: on the empty aggregator
  \<open>GetLatestNews(-1)\<close> panics.
\<close>

theorem GetLatestNews_negative_limit_counterexample:
  "Aggregator_GetLatestNews (New None :: unit Aggregator) (- 1) = Inl (PanicSliceBounds (- 1)) \<and>
   Aggregator_GetLatestNews (New None :: unit Aggregator) (- 1) \<noteq> Inr []"
  by (simp add: Aggregator_GetLatestNews_def LimitTo_def New_def)

section \<open>The bubble sort sorts\<close>

lemma length_swap_step [simp]: "length (swap_step j nl) = length nl"
  by (simp add: swap_step_def)

lemma swap_step_Suc: "swap_step (Suc j) (z # zs) = z # swap_step j zs"
  by (simp add: swap_step_def)

lemma fold_swap_step_Suc:
  "fold swap_step (map Suc js) (z # zs) = z # fold swap_step js zs"
  by (induction js arbitrary: zs) (simp_all add: swap_step_Suc)

lemma swap_step_0:
  "swap_step 0 (x # y # xs) =
     (if Before (PublishedAt x) (PublishedAt y) then y # x # xs else x # y # xs)"
  by (simp add: swap_step_def)

lemma fold_swap_step_bubble:
  "m < length xs \<Longrightarrow> fold swap_step [0 ..< m] xs = bubble m xs"
proof (induction m arbitrary: xs)
  case 0
  then show ?case by (cases xs) simp_all
next
  case (Suc m)
  then obtain x y ys where xs: "xs = x # y # ys"
    by (cases xs; cases "tl xs") auto
  have upt: "[0 ..< Suc m] = 0 # map Suc [0 ..< m]"
    by (simp add: upt_conv_Cons map_Suc_upt del: upt_Suc)
  from Suc.prems xs have m: "m < length (x # ys)" "m < length (y # ys)" by simp_all
  show ?case
    unfolding upt xs
    by (simp add: swap_step_0 fold_swap_step_Suc Suc.IH[OF m(1)] Suc.IH[OF m(2)] del: upt_Suc)
qed

lemma length_bubble [simp]: "length (bubble m xs) = length xs"
  by (induction m xs rule: bubble.induct) simp_all

lemma mset_bubble [simp]: "mset (bubble m xs) = mset xs"
  by (induction m xs rule: bubble.induct) simp_all

lemma bubble_append:
  "m < length xs \<Longrightarrow> bubble m (xs @ ys) = bubble m xs @ ys"
  by (induction m xs rule: bubble.induct) simp_all

lemma bubble_last_min:
  "length xs = Suc m \<Longrightarrow> x \<in> set xs \<Longrightarrow>
     PublishedAt (last (bubble m xs)) \<le> PublishedAt x"
proof (induction m xs arbitrary: x rule: bubble.induct)
  case (1 m a b xs)
  show ?case
  proof (cases "Before (PublishedAt a) (PublishedAt b)")
    case True
    have l: "length (a # xs) = Suc m" using "1.prems" by simp
    have ne: "bubble m (a # xs) \<noteq> []" by (metis length_bubble list.distinct(1) length_0_conv)
    have ih: "PublishedAt (last (bubble m (a # xs))) \<le> PublishedAt z" if "z \<in> set (a # xs)" for z
      using "1.IH"(1)[OF True l that] .
    have la: "PublishedAt (last (bubble m (a # xs))) \<le> PublishedAt a" by (rule ih) simp
    have ab: "PublishedAt a \<le> PublishedAt b" using True by (simp add: Before_def)
    have "PublishedAt (last (bubble m (a # xs))) \<le> PublishedAt x"
    proof (cases "x = b")
      case True
      then show ?thesis using la ab by simp
    next
      case False
      then have "x \<in> set (a # xs)" using "1.prems"(2) by auto
      then show ?thesis by (rule ih)
    qed
    then show ?thesis using True ne by simp
  next
    case False
    have l: "length (b # xs) = Suc m" using "1.prems" by simp
    have ne: "bubble m (b # xs) \<noteq> []" by (metis length_bubble list.distinct(1) length_0_conv)
    have ih: "PublishedAt (last (bubble m (b # xs))) \<le> PublishedAt z" if "z \<in> set (b # xs)" for z
      using "1.IH"(2)[OF False l that] .
    have lb: "PublishedAt (last (bubble m (b # xs))) \<le> PublishedAt b" by (rule ih) simp
    have ba: "PublishedAt b \<le> PublishedAt a" using False by (simp add: Before_def)
    have "PublishedAt (last (bubble m (b # xs))) \<le> PublishedAt x"
    proof (cases "x = a")
      case True
      then show ?thesis using lb ba by simp
    next
      case False
      then have "x \<in> set (b # xs)" using "1.prems"(2) by auto
      then show ?thesis by (rule ih)
    qed
    then show ?thesis using False ne by simp
  qed
qed (auto simp: length_Suc_conv)


lemma inner_loop_bubble: "inner_loop i nl = bubble (length nl - i - 1) nl"
proof (cases nl)
  case Nil
  then show ?thesis by (simp add: inner_loop_def)
next
  case (Cons a as)
  then have "length nl - i - 1 < length nl" by simp
  then show ?thesis unfolding inner_loop_def by (rule fold_swap_step_bubble)
qed

lemma set_bubble [simp]: "set (bubble m xs) = set xs"
  by (metis mset_bubble set_mset_mset)

lemma bubble_pass:
  assumes S: "newer_first S"
    and PS: "\<forall>p\<in>set P. \<forall>s\<in>set S. PublishedAt s \<le> PublishedAt p"
    and ne: "P \<noteq> []"
  shows "\<exists>Q l. bubble (length P - 1) (P @ S) = Q @ (l # S) \<and> length Q = length P - 1 \<and>
           newer_first (l # S) \<and> (\<forall>q\<in>set Q. \<forall>s\<in>set (l # S). PublishedAt s \<le> PublishedAt q)"
proof -
  let ?B = "bubble (length P - 1) P"
  have len: "length P = Suc (length P - 1)" using ne by (cases P) simp_all
  have Bne: "?B \<noteq> []" using ne by (metis length_bubble length_0_conv)
  have app: "bubble (length P - 1) (P @ S) = ?B @ S"
    using ne by (intro bubble_append) (cases P, simp_all)
  have split: "?B = butlast ?B @ [last ?B]" using Bne by simp
  have lmin: "PublishedAt (last ?B) \<le> PublishedAt x" if "x \<in> set P" for x
    using bubble_last_min[OF len that] .
  have lin: "last ?B \<in> set P" using Bne last_in_set[of ?B] by simp
  have bin: "set (butlast ?B) \<subseteq> set P"
    using in_set_butlastD[of _ ?B] by auto
  have 1: "bubble (length P - 1) (P @ S) = butlast ?B @ (last ?B # S)"
    using app split by (metis append.assoc append_Cons append_Nil)
  have 2: "length (butlast ?B) = length P - 1" by simp
  have 3: "newer_first (last ?B # S)"
    using S PS lin by (auto simp: newer_first_def)
  have 4: "\<forall>q\<in>set (butlast ?B). \<forall>s\<in>set (last ?B # S). PublishedAt s \<le> PublishedAt q"
    using bin PS lmin by auto
  show ?thesis using 1 2 3 4 by blast
qed

lemma outer_loop_invariant:
  "k \<le> length nl - 1 \<Longrightarrow>
     \<exists>P S. fold inner_loop [0 ..< k] nl = P @ S \<and> length S = k \<and> length P = length nl - k \<and>
       newer_first S \<and> (\<forall>p\<in>set P. \<forall>s\<in>set S. PublishedAt s \<le> PublishedAt p)"
proof (induction k)
  case 0
  show ?case by (rule exI[of _ nl], rule exI[of _ "[]"]) (simp add: newer_first_def)
next
  case (Suc k)
  then have k: "k \<le> length nl - 1" and lt: "Suc k < length nl" by simp_all
  from Suc.IH[OF k] obtain P S where
    PS: "fold inner_loop [0 ..< k] nl = P @ S" "length S = k" "length P = length nl - k"
      "newer_first S" "\<forall>p\<in>set P. \<forall>s\<in>set S. PublishedAt s \<le> PublishedAt p"
    by blast
  have ne: "P \<noteq> []" using PS(3) lt by auto
  have lenPS: "length (P @ S) = length nl" using PS(2,3) lt by simp
  have "fold inner_loop [0 ..< Suc k] nl = inner_loop k (P @ S)"
    using PS(1) by simp
  also have "\<dots> = bubble (length P - 1) (P @ S)"
    unfolding inner_loop_bubble lenPS using PS(3) by simp
  finally have eq: "fold inner_loop [0 ..< Suc k] nl = bubble (length P - 1) (P @ S)" .
  from bubble_pass[OF PS(4) PS(5) ne] obtain Q l where
    Q: "bubble (length P - 1) (P @ S) = Q @ (l # S)" "length Q = length P - 1"
      "newer_first (l # S)" "\<forall>q\<in>set Q. \<forall>s\<in>set (l # S). PublishedAt s \<le> PublishedAt q"
    by blast
  show ?case
    apply (rule exI[of _ Q], rule exI[of _ "l # S"])
    using eq Q PS(2,3) lt by simp
qed

lemma SortByDate_newer_first: "newer_first (SortByDate nl)"
proof (cases nl)
  case Nil
  then show ?thesis by (simp add: SortByDate_def newer_first_def)
next
  case (Cons a as)
  from outer_loop_invariant[of "length nl - 1" nl] obtain P S where
    PS: "SortByDate nl = P @ S" "length S = length nl - 1" "length P = length nl - (length nl - 1)"
      "newer_first S" "\<forall>p\<in>set P. \<forall>s\<in>set S. PublishedAt s \<le> PublishedAt p"
    unfolding SortByDate_def by blast
  have "length P = 1" using PS(3) Cons by simp
  then obtain p where P: "P = [p]" by (cases P) auto
  show ?thesis using PS(1,4,5) P by (simp add: newer_first_def)
qed

lemma length_fold_inner_loop [simp]: "length (fold inner_loop ks nl) = length nl"
  by (induction ks arbitrary: nl) (simp_all add: inner_loop_bubble)

lemma mset_fold_inner_loop [simp]: "mset (fold inner_loop ks nl) = mset nl"
  by (induction ks arbitrary: nl) (simp_all add: inner_loop_bubble)

lemma length_SortByDate [simp]: "length (SortByDate nl) = length nl"
  by (simp add: SortByDate_def)

lemma mset_SortByDate [simp]: "mset (SortByDate nl) = mset nl"
  by (simp add: SortByDate_def)

lemma set_SortByDate [simp]: "set (SortByDate nl) = set nl"
  by (metis mset_SortByDate set_mset_mset)

lemma filter_bubble:
  "filter (\<lambda>x. c = PublishedAt x) (bubble m xs) = filter (\<lambda>x. c = PublishedAt x) xs"
  by (induction m xs rule: bubble.induct) (auto simp: Before_def)

lemma filter_fold_inner_loop:
  "filter (\<lambda>x. c = PublishedAt x) (fold inner_loop ks nl) = filter (\<lambda>x. c = PublishedAt x) nl"
  by (induction ks arbitrary: nl) (simp_all add: inner_loop_bubble filter_bubble)

lemma SortByDate_stable_sort: "SortByDate nl = sort_key (\<lambda>x. - PublishedAt x) nl"
proof (rule sym, rule properties_for_sort_key)
  show "mset (SortByDate nl) = mset nl" by simp
  show "filter (\<lambda>x. - PublishedAt k = - PublishedAt x) (SortByDate nl) =
        filter (\<lambda>x. - PublishedAt k = - PublishedAt x) nl" for k
    using filter_fold_inner_loop[of "PublishedAt k"] by (simp add: SortByDate_def)
  show "sorted (map (\<lambda>x. - PublishedAt x) (SortByDate nl))"
    using SortByDate_newer_first[of nl] by (simp add: sorted_map newer_first_def)
qed

lemma bubble_newer_first: "newer_first xs \<Longrightarrow> bubble m xs = xs"
  by (induction m xs rule: bubble.induct) (auto simp: newer_first_def Before_def)

lemma fold_inner_loop_newer_first: "newer_first nl \<Longrightarrow> fold inner_loop ks nl = nl"
  by (induction ks) (simp_all add: inner_loop_bubble bubble_newer_first)

lemma SortByDate_newer_first_id: "newer_first nl \<Longrightarrow> SortByDate nl = nl"
  by (simp add: SortByDate_def fold_inner_loop_newer_first)


section \<open>The merge: cap and order\<close>

lemma news_addNews:
  "news (fst (addNews newNews (a, r))) =
     take 1000 (SortByDate (news (removeDuplicates (a\<lparr>news := news a @ newNews\<rparr>))))"
  by (simp add: addNews_def Let_def split: option.split)

lemma addNews_example:
  "news (fst (addNews [item ''b'' 5, item ''c'' 9, item ''a'' 7]
     (\<lparr>news = [item ''a'' 1], repository = None\<rparr>, ())))
   = [item ''c'' 9, item ''b'' 5, item ''a'' 1]"
  by (simp add: addNews_def removeDuplicates_def dedup_step_def SortByDate_def inner_loop_def
      swap_step_def Before_def item_def Let_def upt_rec)

text \<open>
  Claim C2. After every merge the list holds at most 1000 items: whatever the state
  \<open>st\<close> and the batches merged before, the state after merging one more batch is within
  the cap (so every state along a sequence of merges is).
\<close>

theorem addNews_cap: "length (news (fst (fold addNews (batches @ [newNews]) st))) \<le> 1000"
proof -
  obtain a r where "fold addNews batches st = (a, r)" by (cases "fold addNews batches st")
  then show ?thesis by (simp add: news_addNews)
qed

lemma newer_first_addNews: "newer_first (news (fst (addNews newNews st)))"
proof -
  obtain a r where st: "st = (a, r)" by (cases st)
  show ?thesis
    unfolding st news_addNews newer_first_def
    by (rule sorted_wrt_take) (use SortByDate_newer_first in \<open>simp add: newer_first_def\<close>)
qed

text \<open>
  Claim C3. After a merge the list is sorted by \<open>published_at\<close>, newest first: each item
  is published no earlier than the next one.
\<close>

theorem addNews_sorted:
  "\<forall>i. i + 1 < length (news (fst (addNews newNews st))) \<longrightarrow>
     PublishedAt (news (fst (addNews newNews st)) ! i)
       \<ge> PublishedAt (news (fst (addNews newNews st)) ! (i + 1))"
  using newer_first_addNews[of newNews st]
  by (auto simp: newer_first_def sorted_wrt_iff_nth_less)

theorem addNews_sorted_witness:
  "PublishedAt (news (fst (addNews [item ''b'' 5, item ''c'' 9, item ''a'' 7]
      (\<lparr>news = [item ''a'' 1], repository = None\<rparr>, ()))) ! 0)
   \<ge> PublishedAt (news (fst (addNews [item ''b'' 5, item ''c'' 9, item ''a'' 7]
      (\<lparr>news = [item ''a'' 1], repository = None\<rparr>, ()))) ! 1)"
  using addNews_sorted [of "[item ''b'' 5, item ''c'' 9, item ''a'' 7]"
      "(\<lparr>news = [item ''a'' 1], repository = None\<rparr>, ())", THEN spec, of 0]
  by (simp add: addNews_example)


section \<open>Deduplication\<close>

lemma fold_dedup_step:
  "snd (fold dedup_step xs (seen, out)) = out @ first_wins (filter (\<lambda>y. \<not> seen (ID y)) xs)"
proof (induction xs arbitrary: seen out)
  case Nil
  show ?case by simp
next
  case (Cons x xs)
  show ?case
  proof (cases "seen (ID x)")
    case True
    then have "dedup_step x (seen, out) = (seen, out)" by (simp add: dedup_step_def)
    then have "fold dedup_step (x # xs) (seen, out) = fold dedup_step xs (seen, out)" by simp
    then show ?thesis using True Cons.IH[of seen out] by simp
  next
    case False
    define seen' where "seen' = seen(ID x := True)"
    have f: "filter (\<lambda>y. \<not> seen' (ID y)) xs
           = filter (\<lambda>y. ID y \<noteq> ID x) (filter (\<lambda>y. \<not> seen (ID y)) xs)"
      by (auto simp: seen'_def intro: filter_cong)
    from False have "dedup_step x (seen, out) = (seen', out @ [x])"
      by (simp add: dedup_step_def seen'_def)
    then have "fold dedup_step (x # xs) (seen, out) = fold dedup_step xs (seen', out @ [x])"
      by simp
    then have "snd (fold dedup_step (x # xs) (seen, out))
             = (out @ [x]) @ first_wins (filter (\<lambda>y. \<not> seen' (ID y)) xs)"
      using Cons.IH[of seen' "out @ [x]"] by simp
    also have "\<dots> = out @ first_wins (filter (\<lambda>y. \<not> seen (ID y)) (x # xs))"
      unfolding f using False by simp
    finally show ?thesis .
  qed
qed

lemma news_removeDuplicates: "news (removeDuplicates a) = first_wins (news a)"
  by (simp add: removeDuplicates_def fold_dedup_step)

lemma set_first_wins: "set (first_wins xs) \<subseteq> set xs"
  by (induction xs rule: first_wins.induct) auto

lemma ids_first_wins: "ID ` set (first_wins xs) = ID ` set xs"
proof (induction xs rule: first_wins.induct)
  case 1
  show ?case by simp
next
  case (2 x xs)
  have "ID ` set xs \<subseteq> insert (ID x) (ID ` set (filter (\<lambda>y. ID y \<noteq> ID x) xs))" by auto
  moreover have "ID ` set (filter (\<lambda>y. ID y \<noteq> ID x) xs) \<subseteq> ID ` set xs" by auto
  ultimately show ?case using 2 by auto
qed

lemma distinct_first_wins: "distinct (map ID (first_wins xs))"
proof (induction xs rule: first_wins.induct)
  case 1
  show ?case by simp
next
  case (2 x xs)
  have "ID x \<notin> ID ` set (first_wins (filter (\<lambda>y. ID y \<noteq> ID x) xs))"
    unfolding ids_first_wins by auto
  then show ?case using 2 by simp
qed

lemma first_wins_first:
  "x \<in> set (first_wins xs) \<Longrightarrow> find (\<lambda>y. ID y = ID x) xs = Some x"
proof (induction xs rule: first_wins.induct)
  case 1
  then show ?case by simp
next
  case (2 z zs)
  show ?case
  proof (cases "x = z")
    case True
    then show ?thesis by simp
  next
    case False
    then have x: "x \<in> set (first_wins (filter (\<lambda>y. ID y \<noteq> ID z) zs))" using "2.prems" by simp
    then have "x \<in> set (filter (\<lambda>y. ID y \<noteq> ID z) zs)" using set_first_wins by blast
    then have ne: "ID z \<noteq> ID x" by auto
    have "find (\<lambda>y. ID y = ID x) (filter (\<lambda>y. ID y \<noteq> ID z) zs) = find (\<lambda>y. ID y = ID x) zs"
      using ne by (induction zs) auto
    then show ?thesis using "2.IH"[OF x] ne by simp
  qed
qed

lemma first_wins_distinct: "distinct (map ID xs) \<Longrightarrow> first_wins xs = xs"
proof (induction xs)
  case Nil
  show ?case by simp
next
  case (Cons x xs)
  from Cons.prems have "ID x \<notin> ID ` set xs" by simp
  then have "\<forall>y\<in>set xs. ID y \<noteq> ID x" by (metis imageI)
  then have "filter (\<lambda>y. ID y \<noteq> ID x) xs = xs" by (simp add: filter_True)
  then show ?case using Cons by simp
qed

lemma first_wins_append:
  "first_wins (xs @ ys) = first_wins xs @ first_wins (filter (\<lambda>y. ID y \<notin> ID ` set xs) ys)"
proof (induction xs arbitrary: ys rule: first_wins.induct)
  case 1
  show ?case by simp
next
  case (2 x xs)
  let ?F = "filter (\<lambda>y. ID y \<noteq> ID x)"
  have "first_wins ((x # xs) @ ys) = x # first_wins (?F xs @ ?F ys)" by simp
  also have "\<dots> = x # first_wins (?F xs) @ first_wins (filter (\<lambda>y. ID y \<notin> ID ` set (?F xs)) (?F ys))"
    using "2.IH"[of "?F ys"] by simp
  also have "filter (\<lambda>y. ID y \<notin> ID ` set (?F xs)) (?F ys) = filter (\<lambda>y. ID y \<notin> ID ` set (x # xs)) ys"
    by (auto intro: filter_cong)
  finally show ?case by simp
qed

lemma SortByDate_append:
  assumes xs: "newer_first xs"
    and le: "\<forall>x\<in>set xs. \<forall>y\<in>set ys. PublishedAt y \<le> PublishedAt x"
  shows "SortByDate (xs @ ys) = xs @ SortByDate ys"
proof -
  let ?f = "\<lambda>x. - PublishedAt x"
  have "sort_key ?f (xs @ ys) = xs @ sort_key ?f ys"
  proof (rule properties_for_sort_key)
    show "mset (xs @ sort_key ?f ys) = mset (xs @ ys)" by simp
    show "filter (\<lambda>x. ?f k = ?f x) (xs @ sort_key ?f ys) = filter (\<lambda>x. ?f k = ?f x) (xs @ ys)" for k
    proof -
      have c: "filter (\<lambda>x. ?f k = ?f x) zs = filter (\<lambda>y. ?f y = ?f k) zs" for zs
        by (rule filter_cong) auto
      show ?thesis unfolding filter_append c sort_key_stable ..
    qed
    show "sorted (map ?f (xs @ sort_key ?f ys))"
    proof -
      have "sorted (map ?f (sort_key ?f ys))" by (rule sorted_sort_key)
      moreover have "sorted (map ?f xs)" using xs by (simp add: sorted_map newer_first_def)
      ultimately show ?thesis using le by (auto simp: sorted_append)
    qed
  qed
  then show ?thesis by (simp add: SortByDate_stable_sort)
qed

lemma distinct_ids_SortByDate: "distinct (map ID (SortByDate nl)) = distinct (map ID nl)"
proof -
  have "mset (map ID (SortByDate nl)) = mset (map ID nl)" by simp
  then show ?thesis by (rule mset_eq_imp_distinct_iff)
qed

lemma distinct_ids_merged: "distinct (map ID (merged l b))"
  unfolding merged_def take_map[symmetric]
  by (rule distinct_take) (simp add: distinct_ids_SortByDate distinct_first_wins del: take_map)

lemma merged_idempotent:
  assumes H: "card (ID ` set (l @ b)) \<le> 1000 \<or>
              (\<forall>x\<in>set (l @ b). \<forall>y\<in>set (l @ b). ID x = ID y \<longrightarrow> PublishedAt x = PublishedAt y)"
  shows "merged (merged l b) b = merged l b"
proof -
  define D where "D = first_wins (l @ b)"
  define S where "S = SortByDate D"
  define l1 where "l1 = take 1000 S"
  define R where "R = first_wins (filter (\<lambda>y. ID y \<notin> ID ` set l1) b)"
  have l1: "merged l b = l1" by (simp add: merged_def l1_def S_def D_def)
  have setS: "set S = set D" by (simp add: S_def)
  have idsS: "ID ` set S = ID ` set (l @ b)" by (simp add: setS D_def ids_first_wins)
  have lenS: "length S = card (ID ` set (l @ b))"
  proof -
    have "distinct (map ID D)" by (simp add: D_def distinct_first_wins)
    then have "card (set (map ID D)) = length (map ID D)" by (rule distinct_card)
    then show ?thesis by (simp add: S_def D_def ids_first_wins)
  qed
  have sortedS: "newer_first S" by (simp add: S_def SortByDate_newer_first)
  have sorted1: "newer_first l1"
    using sortedS unfolding newer_first_def l1_def by (rule sorted_wrt_take)
  have dist1: "distinct (map ID l1)" using distinct_ids_merged[of l b] by (simp add: l1)
  have fw: "first_wins (l1 @ b) = l1 @ R"
    by (simp add: first_wins_append R_def first_wins_distinct[OF dist1])
  have small: "R = []" if "length S \<le> 1000"
  proof -
    from that have "l1 = S" by (simp add: l1_def)
    then have "ID ` set b \<subseteq> ID ` set l1" using idsS by auto
    then have "filter (\<lambda>y. ID y \<notin> ID ` set l1) b = []" by (auto simp: filter_empty_conv)
    then show ?thesis by (simp add: R_def)
  qed
  have ord: "\<forall>x\<in>set l1. \<forall>r\<in>set R. PublishedAt r \<le> PublishedAt x"
  proof (cases "length S \<le> 1000")
    case True
    then show ?thesis using small by simp
  next
    case False
    then have "\<not> card (ID ` set (l @ b)) \<le> 1000" unfolding lenS .
    with H have K: "\<forall>x\<in>set (l @ b). \<forall>y\<in>set (l @ b). ID x = ID y \<longrightarrow> PublishedAt x = PublishedAt y"
      by blast
    have split: "S = l1 @ drop 1000 S" by (simp add: l1_def)
    have below: "\<forall>x\<in>set l1. \<forall>y\<in>set (drop 1000 S). PublishedAt y \<le> PublishedAt x"
      using sortedS unfolding newer_first_def by (subst (asm) split) (simp add: sorted_wrt_append)
    show ?thesis
    proof (intro ballI)
      fix x r assume x: "x \<in> set l1" and r: "r \<in> set R"
      from r have "r \<in> set (filter (\<lambda>y. ID y \<notin> ID ` set l1) b)"
        unfolding R_def using set_first_wins by blast
      then have rb: "r \<in> set b" and rid: "ID r \<notin> ID ` set l1" by auto
      from rb have "ID r \<in> ID ` set S" unfolding idsS by auto
      then obtain s where s: "s \<in> set S" "ID s = ID r" by auto
      with rid have "s \<notin> set l1" by (metis imageI)
      moreover have "set S = set l1 \<union> set (drop 1000 S)"
        by (subst split) simp
      ultimately have sd: "s \<in> set (drop 1000 S)" using s(1) by blast
      have "set D \<subseteq> set (l @ b)" unfolding D_def by (rule set_first_wins)
      then have sl: "s \<in> set (l @ b)" using s(1) setS by blast
      have rl: "r \<in> set (l @ b)" using rb by simp
      have "PublishedAt s = PublishedAt r" using K sl rl s(2) by blast
      moreover have "PublishedAt s \<le> PublishedAt x" using below x sd by blast
      ultimately show "PublishedAt r \<le> PublishedAt x" by simp
    qed
  qed
  have "merged l1 b = take 1000 (l1 @ SortByDate R)"
    by (simp add: merged_def fw SortByDate_append[OF sorted1 ord])
  also have "\<dots> = l1"
  proof (cases "length S \<le> 1000")
    case True
    then show ?thesis using small by (simp add: SortByDate_def l1_def)
  next
    case False
    then have "length l1 = 1000" by (simp add: l1_def)
    then show ?thesis by simp
  qed
  finally show ?thesis by (simp add: l1)
qed

lemma SortByDate_oldest_first:
  assumes ys: "newer_first ys" and lt: "\<forall>y\<in>set ys. PublishedAt x < PublishedAt y"
  shows "SortByDate (x # ys) = ys @ [x]"
proof -
  let ?f = "\<lambda>x. - PublishedAt x"
  have "sort_key ?f (x # ys) = ys @ [x]"
  proof (rule properties_for_sort_key)
    show "mset (ys @ [x]) = mset (x # ys)" by simp
    show "filter (\<lambda>z. ?f k = ?f z) (ys @ [x]) = filter (\<lambda>z. ?f k = ?f z) (x # ys)" for k
    proof (cases "PublishedAt k = PublishedAt x")
      case True
      then have "filter (\<lambda>z. ?f k = ?f z) ys = []" using lt by (auto simp: filter_empty_conv)
      then show ?thesis using True by simp
    next
      case False
      then show ?thesis by simp
    qed
    show "sorted (map ?f (ys @ [x]))"
      using ys lt by (auto simp: sorted_append sorted_map newer_first_def less_imp_le)
  qed
  then show ?thesis by (simp add: SortByDate_stable_sort)
qed

lemma SortByDate_newest_last:
  assumes ys: "newer_first ys" and lt: "\<forall>y\<in>set ys. PublishedAt y < PublishedAt x"
  shows "SortByDate (ys @ [x]) = x # ys"
proof -
  let ?f = "\<lambda>x. - PublishedAt x"
  have "sort_key ?f (ys @ [x]) = x # ys"
  proof (rule properties_for_sort_key)
    show "mset (x # ys) = mset (ys @ [x])" by simp
    show "filter (\<lambda>z. ?f k = ?f z) (x # ys) = filter (\<lambda>z. ?f k = ?f z) (ys @ [x])" for k
    proof (cases "PublishedAt k = PublishedAt x")
      case True
      then have "filter (\<lambda>z. ?f k = ?f z) ys = []" using lt by (auto simp: filter_empty_conv)
      then show ?thesis using True by simp
    next
      case False
      then show ?thesis by simp
    qed
    show "sorted (map ?f (x # ys))"
      using ys lt by (auto simp: sorted_map newer_first_def less_imp_le)
  qed
  then show ?thesis by (simp add: SortByDate_stable_sort)
qed

lemma length_fillers: "length fillers = 1000"
  by (simp add: fillers_def)

lemma fillers_date: "y \<in> set fillers \<Longrightarrow> PublishedAt y = 1"
  by (auto simp: fillers_def filler_def item_def)

lemma fillers_id: "y \<in> set fillers \<Longrightarrow> ID y \<noteq> ''x''"
  by (auto simp: fillers_def filler_def item_def)

lemma distinct_ids_fillers: "distinct (map ID fillers)"
proof -
  have "map ID fillers = map (\<lambda>k. replicate (Suc k) (CHR ''z'')) [0 ..< 1000]"
    by (simp add: fillers_def filler_def item_def)
  moreover have "inj_on (\<lambda>k. replicate (Suc k) (CHR ''z'')) (set [0 ..< 1000])"
    by (rule inj_onI) (metis length_replicate nat.inject)
  ultimately show ?thesis by (simp add: distinct_map)
qed

lemma newer_first_fillers: "newer_first fillers"
  unfolding newer_first_def
proof (rule sorted_wrt_mono_rel[of _ "\<lambda>a b. True"])
  show "PublishedAt y \<le> PublishedAt x" if "x \<in> set fillers" "y \<in> set fillers" for x y
    using fillers_date[OF that(1)] fillers_date[OF that(2)] by simp
  show "sorted_wrt (\<lambda>a b. True) fillers" by simp
qed

lemma merged_once:
  "merged [item ''x'' 0] (item ''x'' 2 # fillers) = fillers"
proof -
  have f: "filter (\<lambda>y. ID y \<noteq> ''x'') fillers = fillers"
    by (rule filter_True) (auto dest: fillers_id)
  have "first_wins ([item ''x'' 0] @ item ''x'' 2 # fillers) = item ''x'' 0 # fillers"
    by (simp add: item_def[of "''x''"] f first_wins_distinct[OF distinct_ids_fillers])
  moreover have "SortByDate (item ''x'' 0 # fillers) = fillers @ [item ''x'' 0]"
    by (rule SortByDate_oldest_first[OF newer_first_fillers]) (auto simp: item_def dest: fillers_date)
  ultimately show ?thesis by (simp add: merged_def length_fillers)
qed

lemma merged_twice:
  "merged fillers (item ''x'' 2 # fillers) = item ''x'' 2 # take 999 fillers"
proof -
  have f: "filter (\<lambda>y. ID y \<notin> ID ` set fillers) fillers = []"
    by (auto simp: filter_empty_conv)
  have x: "ID (item ''x'' 2) \<notin> ID ` set fillers"
    by (auto simp: item_def[of "''x''"] dest: fillers_id)
  have "first_wins (fillers @ item ''x'' 2 # fillers) = fillers @ [item ''x'' 2]"
    by (simp add: first_wins_append first_wins_distinct[OF distinct_ids_fillers] f x)
  moreover have "SortByDate (fillers @ [item ''x'' 2]) = item ''x'' 2 # fillers"
    by (rule SortByDate_newest_last[OF newer_first_fillers]) (auto simp: item_def dest: fillers_date)
  ultimately show ?thesis by (simp add: merged_def length_fillers)
qed


lemma news_addNews_merged: "news (fst (addNews newNews st)) = merged (news (fst st)) newNews"
  by (cases st) (simp add: news_addNews news_removeDuplicates merged_def)

lemma find_first_wins:
  "find (\<lambda>y. ID y = k) (first_wins xs) = find (\<lambda>y. ID y = k) xs"
proof (induction xs rule: first_wins.induct)
  case 1
  show ?case by simp
next
  case (2 x xs)
  show ?case
  proof (cases "ID x = k")
    case True
    then show ?thesis by simp
  next
    case False
    have "find (\<lambda>y. ID y = k) (filter (\<lambda>y. ID y \<noteq> ID x) xs) = find (\<lambda>y. ID y = k) xs"
      using False by (induction xs) auto
    then show ?thesis using False 2 by simp
  qed
qed

lemma merged_first:
  assumes "x \<in> set (merged l b)"
  shows "find (\<lambda>y. ID y = ID x) (l @ b) = Some x"
proof -
  from assms have "x \<in> set (SortByDate (first_wins (l @ b)))"
    unfolding merged_def by (rule in_set_takeD)
  then have "x \<in> set (first_wins (l @ b))" by simp
  then show ?thesis by (rule first_wins_first)
qed

text \<open>
  Claim C4, as amended. \<open>removeDuplicates\<close> leaves no two items with one id, keeps every
  id, and for every id \<open>k\<close> keeps the first item of the list that carries it. After a
  merge no two items of the list share an id, and every item of the list is the first one
  with its id in the old list followed by the batch. Merging the same batch a second time
  leaves the list (hence its set of ids) as the first merge left it, provided the old list
  and the batch hold at most 1000 distinct ids, or items that share an id share their
  \<open>published_at\<close>.
\<close>

theorem addNews_dedup:
  "distinct (map ID (news (removeDuplicates a))) \<and>
   ID ` set (news (removeDuplicates a)) = ID ` set (news a) \<and>
   find (\<lambda>y. ID y = k) (news (removeDuplicates a)) = find (\<lambda>y. ID y = k) (news a) \<and>
   distinct (map ID (news (fst (addNews newNews st)))) \<and>
   (\<forall>x\<in>set (news (fst (addNews newNews st))).
      find (\<lambda>y. ID y = ID x) (news (fst st) @ newNews) = Some x) \<and>
   (card (ID ` set (news (fst st) @ newNews)) \<le> 1000 \<or>
    (\<forall>x\<in>set (news (fst st) @ newNews). \<forall>y\<in>set (news (fst st) @ newNews).
       ID x = ID y \<longrightarrow> PublishedAt x = PublishedAt y)
    \<longrightarrow> news (fst (addNews newNews (addNews newNews st))) = news (fst (addNews newNews st)) \<and>
        ID ` set (news (fst (addNews newNews (addNews newNews st))))
          = ID ` set (news (fst (addNews newNews st))))"
proof -
  have 1: "distinct (map ID (news (removeDuplicates a)))"
    by (simp add: news_removeDuplicates distinct_first_wins)
  have 2: "ID ` set (news (removeDuplicates a)) = ID ` set (news a)"
    by (simp add: news_removeDuplicates ids_first_wins)
  have 3: "find (\<lambda>y. ID y = k) (news (removeDuplicates a)) = find (\<lambda>y. ID y = k) (news a)"
    by (simp add: news_removeDuplicates find_first_wins)
  have 4: "distinct (map ID (news (fst (addNews newNews st))))"
    by (simp add: news_addNews_merged distinct_ids_merged)
  have 5: "\<forall>x\<in>set (news (fst (addNews newNews st))).
      find (\<lambda>y. ID y = ID x) (news (fst st) @ newNews) = Some x"
    by (simp add: news_addNews_merged merged_first)
  have 6: "news (fst (addNews newNews (addNews newNews st))) = news (fst (addNews newNews st))"
    if "card (ID ` set (news (fst st) @ newNews)) \<le> 1000 \<or>
    (\<forall>x\<in>set (news (fst st) @ newNews). \<forall>y\<in>set (news (fst st) @ newNews).
       ID x = ID y \<longrightarrow> PublishedAt x = PublishedAt y)"
    unfolding news_addNews_merged using that by (rule merged_idempotent)
  show ?thesis using 1 2 3 4 5 6 by simp
qed

theorem addNews_dedup_witness:
  "news (fst (addNews [item ''b'' 5, item ''c'' 9, item ''a'' 7]
      (addNews [item ''b'' 5, item ''c'' 9, item ''a'' 7]
         (\<lparr>news = [item ''a'' 1], repository = None\<rparr>, ()))))
     = [item ''c'' 9, item ''b'' 5, item ''a'' 1] \<and>
   find (\<lambda>y. ID y = ''a'') ([item ''a'' 1] @ [item ''b'' 5, item ''c'' 9, item ''a'' 7])
     = Some (item ''a'' 1)"
proof -
  let ?B = "[item ''b'' 5, item ''c'' 9, item ''a'' 7]"
  let ?st = "(\<lparr>news = [item ''a'' 1], repository = None\<rparr>, ()) :: unit Aggregator \<times> unit"
  note t = addNews_dedup [of "fst ?st" "''a''" ?B ?st]
  have c: "card (ID ` set (news (fst ?st) @ ?B)) \<le> 1000"
    by (simp add: item_def card_insert_if)
  have m: "item ''a'' 1 \<in> set (news (fst (addNews ?B ?st)))"
    by (simp add: addNews_example)
  have i: "ID (item ''a'' 1) = ''a''" by (simp add: item_def)
  note t5 = t [THEN conjunct2, THEN conjunct2, THEN conjunct2, THEN conjunct2, THEN conjunct1]
  note t6 = t [THEN conjunct2, THEN conjunct2, THEN conjunct2, THEN conjunct2, THEN conjunct2]
  from t6 c have "news (fst (addNews ?B (addNews ?B ?st))) = news (fst (addNews ?B ?st))"
    by (elim impE conjE) (rule disjI1)
  moreover have "find (\<lambda>y. ID y = ID (item ''a'' 1)) (news (fst ?st) @ ?B) = Some (item ''a'' 1)"
    using t5 [THEN bspec, OF m] .
  ultimately show ?thesis by (simp add: addNews_example i)
qed

text \<open>
  The first sentence of claim C4 fails as stated once the cap cuts. Start from the single
  item \<open>x\<close> published at 0 and merge the batch made of another item with id \<open>x\<close>
  published at 2, followed by the 1000 test items published at 1. The first merge drops
  the batch's \<open>x\<close> as a duplicate, sorts the old \<open>x\<close> last and cuts it: the list is the
  1000 test items. The second merge of the same batch finds no \<open>x\<close> in the list, keeps
  the batch's \<open>x\<close>, sorts it first and cuts the last test item: the two sets of ids differ.
\<close>

theorem addNews_twice_counterexample:
  "ID ` set (news (fst (addNews (item ''x'' 2 # fillers) (addNews (item ''x'' 2 # fillers)
      (\<lparr>news = [item ''x'' 0], repository = None\<rparr>, ())))))
   \<noteq> ID ` set (news (fst (addNews (item ''x'' 2 # fillers)
      (\<lparr>news = [item ''x'' 0], repository = None\<rparr>, ())))) \<and>
   ''x'' \<in> ID ` set (news (fst (addNews (item ''x'' 2 # fillers) (addNews (item ''x'' 2 # fillers)
      (\<lparr>news = [item ''x'' 0], repository = None\<rparr>, ()))))) \<and>
   ''x'' \<notin> ID ` set (news (fst (addNews (item ''x'' 2 # fillers)
      (\<lparr>news = [item ''x'' 0], repository = None\<rparr>, ()))))"
proof -
  have 1: "news (fst (addNews (item ''x'' 2 # fillers) (\<lparr>news = [item ''x'' 0], repository = None\<rparr>, ())))
         = fillers"
    by (simp add: news_addNews_merged merged_once)
  have 2: "news (fst (addNews (item ''x'' 2 # fillers) (addNews (item ''x'' 2 # fillers)
      (\<lparr>news = [item ''x'' 0], repository = None\<rparr>, ()))))
         = item ''x'' 2 # take 999 fillers"
    by (simp add: news_addNews_merged[of _ "addNews _ _"] 1 merged_twice)
  have "''x'' \<notin> ID ` set fillers" by (auto dest: fillers_id)
  moreover have "''x'' \<in> ID ` set (item ''x'' 2 # take 999 fillers)" by (simp add: item_def)
  ultimately show ?thesis unfolding 1 2 by metis
qed


section \<open>File repository\<close>

lemma FileCache_GetLatestNews_NoFile:
  "fs (filePath f) = NoFile \<Longrightarrow> FileCache_GetLatestNews js f n fs = (Inr [], fs)"
  by (simp add: FileCache_GetLatestNews_def ReadFile_def IsNotExist_def)

lemma FileCache_GetLatestNews_NoDir:
  "fs (filePath f) = NoDir \<Longrightarrow> FileCache_GetLatestNews js f n fs = (Inr [], fs)"
  by (simp add: FileCache_GetLatestNews_def ReadFile_def IsNotExist_def)

lemma FileCache_GetLatestNews_Locked:
  "fs (filePath f) = Locked \<Longrightarrow> FileCache_GetLatestNews js f n fs = (Inl ErrIO, fs)"
  by (simp add: FileCache_GetLatestNews_def ReadFile_def IsNotExist_def)

lemma FileCache_GetLatestNews_Content:
  "fs (filePath f) = Content d \<Longrightarrow>
     FileCache_GetLatestNews js f n fs =
       (case Unmarshal js d of Inl err \<Rightarrow> (Inl err, fs) | Inr nl \<Rightarrow> (LimitTo nl n, fs))"
  by (simp add: FileCache_GetLatestNews_def ReadFile_def)

text \<open>
  Claim C8, as amended. On a repository whose file does not exist (in a directory that
  exists or not), \<open>GetLatestNews(n)\<close>
  returns the empty list and no error, for every \<open>n\<close>. When the file exists and decodes
  to a list, the result is the list truncated to its first \<open>n\<close> items for every
  \<open>n \<ge> 0\<close>; for \<open>n < 0\<close> the truncation panics. A decode error is returned.
\<close>

theorem FileCache_GetLatestNews_cases:
  "(fs (filePath f) = NoFile \<longrightarrow> FileCache_GetLatestNews js f n fs = (Inr [], fs)) \<and>
   (fs (filePath f) = Content d \<and> Unmarshal js d = Inr nl \<and> 0 \<le> n \<longrightarrow>
      FileCache_GetLatestNews js f n fs = (Inr (take (nat n) nl), fs)) \<and>
   (fs (filePath f) = Content d \<and> Unmarshal js d = Inr nl \<and> n < 0 \<longrightarrow>
      FileCache_GetLatestNews js f n fs = (Inl (PanicSliceBounds n), fs)) \<and>
   (fs (filePath f) = Content d \<and> Unmarshal js d = Inl err \<longrightarrow>
      FileCache_GetLatestNews js f n fs = (Inl err, fs)) \<and>
   (fs (filePath f) = NoDir \<longrightarrow> FileCache_GetLatestNews js f n fs = (Inr [], fs))"
  by (simp add: FileCache_GetLatestNews_NoFile FileCache_GetLatestNews_NoDir
      FileCache_GetLatestNews_Content LimitTo_nonneg LimitTo_negative)

theorem FileCache_GetLatestNews_cases_witness:
  "FileCache_GetLatestNews plain_codec (NewFileCache ''news.json'') (- 5) (\<lambda>p. NoFile)
     = (Inr [], \<lambda>p. NoFile) \<and>
   FileCache_GetLatestNews plain_codec (NewFileCache ''news.json'') 2
       ((\<lambda>p. NoFile)(''news.json'' := Content [item ''a'' 3, item ''b'' 2, item ''c'' 1]))
     = (Inr [item ''a'' 3, item ''b'' 2],
        (\<lambda>p. NoFile)(''news.json'' := Content [item ''a'' 3, item ''b'' 2, item ''c'' 1])) \<and>
   FileCache_GetLatestNews plain_codec (NewFileCache ''news.json'') (- 5)
       ((\<lambda>p. NoFile)(''news.json'' := Content [item ''a'' 3, item ''b'' 2, item ''c'' 1]))
     = (Inl (PanicSliceBounds (- 5)),
        (\<lambda>p. NoFile)(''news.json'' := Content [item ''a'' 3, item ''b'' 2, item ''c'' 1]))"
  using FileCache_GetLatestNews_cases [of "\<lambda>p. NoFile" "NewFileCache ''news.json''" plain_codec "- 5"]
    FileCache_GetLatestNews_cases [of
      "(\<lambda>p. NoFile)(''news.json'' := Content [item ''a'' 3, item ''b'' 2, item ''c'' 1])"
      "NewFileCache ''news.json''" plain_codec 2
      "[item ''a'' 3, item ''b'' 2, item ''c'' 1]" "[item ''a'' 3, item ''b'' 2, item ''c'' 1]"]
    FileCache_GetLatestNews_cases [of
      "(\<lambda>p. NoFile)(''news.json'' := Content [item ''a'' 3, item ''b'' 2, item ''c'' 1])"
      "NewFileCache ''news.json''" plain_codec "- 5"
      "[item ''a'' 3, item ''b'' 2, item ''c'' 1]" "[item ''a'' 3, item ''b'' 2, item ''c'' 1]"]
  by (simp add: NewFileCache_def plain_codec_def numeral_2_eq_2)

text \<open>
  The second half of claim C8 fails at a negative limit: with a file that holds the empty
  list, \<open>GetLatestNews(-1)\<close> panics instead of returning a truncated list.
\<close>

theorem FileCache_GetLatestNews_negative_counterexample:
  "fst (FileCache_GetLatestNews plain_codec (NewFileCache ''news.json'') (- 1)
     ((\<lambda>p. NoFile)(''news.json'' := Content []))) = Inl (PanicSliceBounds (- 1))"
  by (simp add: FileCache_GetLatestNews_def ReadFile_def NewFileCache_def plain_codec_def LimitTo_def)

section \<open>Collector\<close>

text \<open>
  Claim C7, as amended. \<open>CollectFromSource\<close> returns an error exactly when the request
  cannot be built, the HTTP client fails, the status of the response is not 200, or the
  body does not decode; a response with status 200 and a body that decodes succeeds. The
  task of the source then sends the error, wrapped with the source's name, on the error
  channel, unless the context is cancelled (before the task starts, or while it sends).
\<close>

theorem CollectFromSource_errors:
  "((\<exists>e. CollectFromSource env src = Inl e) \<longleftrightarrow>
      (NewRequest env (Source_URL src) \<noteq> None \<or>
       (\<exists>e. Do env (Source_URL src) = Inl e) \<or>
       (\<exists>resp. Do env (Source_URL src) = Inr resp \<and>
          (StatusCode resp \<noteq> 200 \<or> (\<exists>e. Decode env (Body resp) = Inl e))))) \<and>
   (CollectFromSource env src = Inl e \<longrightarrow>
      collect_task env False True src = Some (ErrorChannel (ErrCollecting (Name src) e)) \<and>
      collect_task env False False src = None \<and>
      collect_task env True delivered src = None)"
proof -
  have 1: "(\<exists>e. CollectFromSource env src = Inl e) \<longleftrightarrow>
      (NewRequest env (Source_URL src) \<noteq> None \<or>
       (\<exists>e. Do env (Source_URL src) = Inl e) \<or>
       (\<exists>resp. Do env (Source_URL src) = Inr resp \<and>
          (StatusCode resp \<noteq> 200 \<or> (\<exists>e. Decode env (Body resp) = Inl e))))"
    by (auto simp: CollectFromSource_def split: option.splits sum.splits)
  have 2: "collect_task env False True src = Some (ErrorChannel (ErrCollecting (Name src) e)) \<and>
      collect_task env False False src = None \<and>
      collect_task env True delivered src = None" if "CollectFromSource env src = Inl e"
    using that by (simp add: collect_task_def)
  show ?thesis using 1 2 by blast
qed

text \<open>
  Claim C7 fails as stated for a 2xx status other than 200: a source that answers
  \<open>201\<close> with a well-formed body is reported as an error.
\<close>

theorem CollectFromSource_2xx_counterexample:
  "CollectFromSource (answer 201) tech = Inl (ErrHTTPStatus 201 ''http://tech.example/api'') \<and>
   collect_task (answer 201) False True tech
     = Some (ErrorChannel (ErrCollecting ''tech'' (ErrHTTPStatus 201 ''http://tech.example/api'')))"
  by (simp add: CollectFromSource_def collect_task_def answer_def tech_def)

lemma CollectFromSource_example:
  "CollectFromSource (answer 200) tech =
     Inr [\<lparr>ID = ''tech_1704200000_0'', Title = ''t'', Description = ''d'', URL = ''u'',
            Source = ''tech'', PublishedAt = 1704110400000000000\<rparr>,
          \<lparr>ID = ''tech_1704200000_1'', Title = ''t2'', Description = ''d2'', URL = ''u2'',
            Source = ''tech'', PublishedAt = 1704200000000000001\<rparr>]"
  by (simp add: CollectFromSource_def answer_def tech_def Sprintf_id_def Sprintf_d_def Unix_def
      digits.simps)

theorem CollectFromSource_errors_witness:
  "collect_task (answer 500) False True tech
     = Some (ErrorChannel (ErrCollecting ''tech'' (ErrHTTPStatus 500 ''http://tech.example/api'')))"
proof -
  have "CollectFromSource (answer 500) tech = Inl (ErrHTTPStatus 500 ''http://tech.example/api'')"
    by (simp add: CollectFromSource_def answer_def tech_def)
  with CollectFromSource_errors [of "answer 500" tech "ErrHTTPStatus 500 ''http://tech.example/api''"]
  show ?thesis by (simp add: tech_def)
qed

lemma length_articles_loop [simp]: "length (articles_loop env src i k arts) = length arts"
  by (induction arts arbitrary: i k) (simp_all split: option.split)

lemma id_reading_0:
  "id_reading env (a # rest) 0 = (if Parse_RFC3339 env (Article_PublishedAt a) = None then 1 else 0)"
  by (simp add: id_reading_def unparsed_def)

lemma id_reading_Suc:
  "id_reading env (a # rest) (Suc j) =
     (if Parse_RFC3339 env (Article_PublishedAt a) = None then 2 else 1) + id_reading env rest j"
  by (simp add: id_reading_def unparsed_def)

lemma date_reading_0: "date_reading env arts 0 = 0"
  by (simp add: date_reading_def unparsed_def)

lemma date_reading_Suc:
  "date_reading env (a # rest) (Suc j) =
     (if Parse_RFC3339 env (Article_PublishedAt a) = None then 2 else 1) + date_reading env rest j"
  by (simp add: date_reading_def unparsed_def)

lemma articles_loop_nth:
  "j < length arts \<Longrightarrow>
     articles_loop env src i k arts ! j =
       \<lparr>ID = Sprintf_id (Name src) (Unix (Now env (k + id_reading env arts j))) (int (i + j)),
        Title = Article_Title (arts ! j),
        Description = Article_Description (arts ! j),
        URL = Article_URL (arts ! j),
        Source = Name src,
        PublishedAt =
          (case Parse_RFC3339 env (Article_PublishedAt (arts ! j)) of
             Some t \<Rightarrow> t
           | None \<Rightarrow> Now env (k + date_reading env arts j))\<rparr>"
proof (induction arts arbitrary: i j k)
  case Nil
  then show ?case by simp
next
  case (Cons a rest)
  show ?case
  proof (cases j)
    case 0
    then show ?thesis by (simp add: id_reading_0 date_reading_0 split: option.split)
  next
    case (Suc j')
    then have j': "j' < length rest" using Cons.prems by simp
    show ?thesis
    proof (cases "Parse_RFC3339 env (Article_PublishedAt a)")
      case None
      then show ?thesis
        using Cons.IH[OF j', of "i + 1" "k + 2"] Suc
        by (simp add: id_reading_Suc date_reading_Suc add.commute add.left_commute split: option.split)
    next
      case (Some t)
      then show ?thesis
        using Cons.IH[OF j', of "i + 1" "k + 1"] Suc
        by (simp add: id_reading_Suc date_reading_Suc add.commute add.left_commute split: option.split)
    qed
  qed
qed

lemma CollectFromSource_Inr:
  assumes "CollectFromSource env src = Inr nl"
    and "Do env (Source_URL src) = Inr resp"
    and "Decode env (Body resp) = Inr arts"
  shows "nl = articles_loop env src 0 0 arts"
  using assms by (auto simp: CollectFromSource_def split: option.splits sum.splits if_splits)

text \<open>
  Claim C9. When \<open>CollectFromSource\<close> succeeds on the decoded articles, the item built
  from the article at index \<open>i\<close> has the id \<open>name_unixtime_index\<close>, made of the source's
  name, the Unix time of the clock reading taken for that id during the collection, and
  \<open>i\<close>; its source is the source's name; its \<open>published_at\<close> is the RFC3339 value of the
  article's \<open>publishedAt\<close>, and the current time (the clock reading taken for it) when
  that does not parse.
\<close>

theorem CollectFromSource_items:
  assumes "CollectFromSource env src = Inr nl"
    and "Do env (Source_URL src) = Inr resp"
    and "Decode env (Body resp) = Inr arts"
    and "i < length arts"
  shows "length nl = length arts \<and>
         ID (nl ! i) = Name src @ ''_'' @ Sprintf_d (Unix (Now env (id_reading env arts i)))
                         @ ''_'' @ Sprintf_d (int i) \<and>
         Source (nl ! i) = Name src \<and>
         PublishedAt (nl ! i) =
           (case Parse_RFC3339 env (Article_PublishedAt (arts ! i)) of
              Some t \<Rightarrow> t
            | None \<Rightarrow> Now env (date_reading env arts i))"
proof -
  have nl: "nl = articles_loop env src 0 0 arts"
    using assms(1-3) by (rule CollectFromSource_Inr)
  show ?thesis
    unfolding nl using articles_loop_nth[OF assms(4), of env src 0 0]
    by (simp add: Sprintf_id_def split: option.split)
qed

theorem CollectFromSource_items_witness:
  "ID (projr (CollectFromSource (answer 200) tech) ! 1) = ''tech_1704200000_1'' \<and>
   PublishedAt (projr (CollectFromSource (answer 200) tech) ! 1) = 1704200000000000001 \<and>
   PublishedAt (projr (CollectFromSource (answer 200) tech) ! 0) = 1704110400000000000"
proof -
  let ?arts = "[\<lparr>Article_Title = ''t'', Article_Description = ''d'',
              Article_URL = ''u'', Article_PublishedAt = ''2024-01-01T12:00:00Z''\<rparr>,
              \<lparr>Article_Title = ''t2'', Article_Description = ''d2'',
              Article_URL = ''u2'', Article_PublishedAt = ''yesterday''\<rparr>]"
  have c: "CollectFromSource (answer 200) tech = Inr (projr (CollectFromSource (answer 200) tech))"
    by (simp add: CollectFromSource_example)
  have d: "Do (answer 200) (Source_URL tech) = Inr \<lparr>StatusCode = 200, Body = ?arts\<rparr>"
    by (simp add: answer_def)
  have e: "Decode (answer 200) (Body \<lparr>StatusCode = 200, Body = ?arts\<rparr>) = Inr ?arts"
    by (simp add: answer_def)
  have r: "id_reading (answer 200) ?arts (Suc 0) = 2" "date_reading (answer 200) ?arts (Suc 0) = 1"
    by (simp_all add: id_reading_def date_reading_def unparsed_def answer_def)
  have n: "Now (answer 200) 2 = 1704200000000000002" "Now (answer 200) (Suc 0) = 1704200000000000001"
    by (simp_all add: answer_def)
  have p: "Parse_RFC3339 (answer 200) ''yesterday'' = None"
    "Parse_RFC3339 (answer 200) ''2024-01-01T12:00:00Z'' = Some 1704110400000000000"
    by (simp_all add: answer_def)
  have s: "Sprintf_d (Unix 1704200000000000002) = ''1704200000''" "Sprintf_d 1 = ''1''"
    by (simp_all add: Unix_def Sprintf_d_def digits.simps)
  from CollectFromSource_items [OF c d e, of 1] CollectFromSource_items [OF c d e, of 0]
  show ?thesis by (simp add: r n p s tech_def)
qed

section \<open>Saving and reading back\<close>

lemma NewsCacheKey_100: "NewsCacheKey 100 = ''news:latest:100''"
  by (simp add: NewsCacheKey_def Sprintf_d_def digits.simps)

lemma Sprintf_d_examples: "Sprintf_d 0 = ''0''" "Sprintf_d (- 42) = ''-42''" "Sprintf_d 1640995200 = ''1640995200''"
  by (simp_all add: Sprintf_d_def digits.simps)

lemma WriteFile_success:
  "fst (WriteFile path d fs) = None \<Longrightarrow> WriteFile path d fs = (None, fs(path := Content d))"
  by (cases "fs path") (simp_all add: WriteFile_def)

lemma FileCache_save_then_read:
  assumes ok: "fst (FileCache_SaveNews js f nl fs) = None"
    and enc: "Marshal js nl = Inr d"
    and dec: "Unmarshal js d = Inr nl'"
  shows "snd (FileCache_SaveNews js f nl fs) = fs(filePath f := Content d)"
    and "FileCache_GetLatestNews js f n (fs(filePath f := Content d))
           = (LimitTo nl' n, fs(filePath f := Content d))"
proof -
  from ok have "fst (WriteFile (filePath f) d fs) = None"
    by (simp add: FileCache_SaveNews_def enc)
  then have "WriteFile (filePath f) d fs = (None, fs(filePath f := Content d))"
    by (rule WriteFile_success)
  then show "snd (FileCache_SaveNews js f nl fs) = fs(filePath f := Content d)"
    by (simp add: FileCache_SaveNews_def enc)
  show "FileCache_GetLatestNews js f n (fs(filePath f := Content d))
           = (LimitTo nl' n, fs(filePath f := Content d))"
    by (simp add: FileCache_GetLatestNews_Content dec)
qed

lemma cached_save_success:
  assumes "fst (CachedNewsRepository_SaveNews c nl (cs, rs)) = None"
  shows "CachedNewsRepository_SaveNews c nl (cs, rs) =
           (None, fold (\<lambda>key cs'. snd (cache_Delete (cache c) key cs')) invalidated_keys cs,
            snd (SaveNews (repo c) nl rs))
         \<and> fst (SaveNews (repo c) nl rs) = None"
  using assms by (auto simp: CachedNewsRepository_SaveNews_def split: prod.splits option.splits)


lemma cached_read_miss:
  "cache_Get (cache c) (NewsCacheKey limit) cs = Inl miss \<Longrightarrow>
     fst (CachedNewsRepository_GetLatestNews c limit (cs, rs)) = fst (GetLatestNews (repo c) limit rs)"
  by (simp add: CachedNewsRepository_GetLatestNews_def split: prod.split sum.split)



lemma MemoryCache_Get_miss: "data m key = None \<Longrightarrow> MemoryCache_Get js key m = Inl ErrCacheMiss"
  by (simp add: MemoryCache_Get_def)


lemma RedisCache_Get_miss:
  "entries r (prefix r @ key) = None \<Longrightarrow> \<exists>miss. RedisCache_Get js key r = Inl miss"
  by (simp add: RedisCache_Get_def split: option.split)

lemma repository_addNews: "repository (fst (addNews newNews (a, r))) = repository a"
  by (simp add: addNews_def removeDuplicates_def Let_def split: option.split)

lemma length_LimitTo: "LimitTo nl limit = Inr xs \<Longrightarrow> 0 \<le> limit \<Longrightarrow> int (length xs) \<le> limit"
  by (auto simp: LimitTo_def split: if_splits)

lemma FileCache_GetLatestNews_length:
  assumes "FileCache_GetLatestNews js f 1000 fs = (Inr nl, fs')"
  shows "length nl \<le> 1000"
proof (cases "fs (filePath f)")
  case NoFile
  then show ?thesis using assms by (simp add: FileCache_GetLatestNews_NoFile)
next
  case NoDir
  then show ?thesis using assms by (simp add: FileCache_GetLatestNews_NoDir)
next
  case Locked
  then show ?thesis using assms by (simp add: FileCache_GetLatestNews_Locked)
next
  case (Content d)
  then have "\<exists>xs. Unmarshal js d = Inr xs \<and> LimitTo xs 1000 = Inr nl"
    using assms by (auto simp: FileCache_GetLatestNews_Content split: sum.splits)
  then obtain xs where "LimitTo xs 1000 = Inr nl" by blast
  then have "int (length nl) \<le> 1000" by (rule length_LimitTo) simp
  then show ?thesis by simp
qed

lemma LoadFromRepository_cases:
  assumes "repository a = Some rp"
  shows "LoadFromRepository (a, r) = (fst (LoadFromRepository (a, r)), a, snd (GetLatestNews rp 1000 r)) \<or>
         (\<exists>nl. fst (GetLatestNews rp 1000 r) = Inr nl \<and>
            LoadFromRepository (a, r) = (None, a\<lparr>news := SortByDate nl\<rparr>, snd (GetLatestNews rp 1000 r)))"
  using assms by (auto simp: LoadFromRepository_def split: prod.splits sum.splits)

lemma SaveToRepository_state: "fst (snd (SaveToRepository (a, r))) = a"
  by (simp add: SaveToRepository_def split: option.split prod.split)

lemma reachable_invariant:
  "reachable js f a \<Longrightarrow>
     newer_first (news a) \<and> length (news a) \<le> 1000 \<and> repository a = Some (FileCache_repo js f)"
proof (induction rule: reachable.induct)
  case reach_New
  show ?case by (simp add: New_def newer_first_def)
next
  case (reach_addNews a newNews fs)
  have "length (news (fst (addNews newNews (a, fs)))) \<le> 1000" by (simp add: news_addNews)
  then show ?case using reach_addNews.IH by (simp add: newer_first_addNews repository_addNews)
next
  case (reach_Load a fs)
  then have rp: "repository a = Some (FileCache_repo js f)" by simp
  from LoadFromRepository_cases[OF rp, of fs] show ?case
  proof
    assume "LoadFromRepository (a, fs) =
      (fst (LoadFromRepository (a, fs)), a, snd (GetLatestNews (FileCache_repo js f) 1000 fs))"
    then have "fst (snd (LoadFromRepository (a, fs))) = a" by (metis fst_conv snd_conv)
    then show ?thesis using reach_Load.IH by simp
  next
    assume "\<exists>nl. fst (GetLatestNews (FileCache_repo js f) 1000 fs) = Inr nl \<and>
            LoadFromRepository (a, fs) =
              (None, a\<lparr>news := SortByDate nl\<rparr>, snd (GetLatestNews (FileCache_repo js f) 1000 fs))"
    then obtain nl where g: "fst (FileCache_GetLatestNews js f 1000 fs) = Inr nl"
      and l: "fst (snd (LoadFromRepository (a, fs))) = a\<lparr>news := SortByDate nl\<rparr>"
      by (auto simp: FileCache_repo_def)
    from g have "length nl \<le> 1000"
      using FileCache_GetLatestNews_length[of js f fs nl "snd (FileCache_GetLatestNews js f 1000 fs)"]
      by (metis prod.collapse)
    then show ?thesis using rp by (simp add: l SortByDate_newer_first)
  qed
next
  case (reach_Save a fs)
  then show ?case by (simp add: SaveToRepository_state)
qed

lemma newer_first_dates:
  "newer_first nl = sorted (map uminus (map PublishedAt nl))"
  by (simp add: newer_first_def sorted_map)

text \<open>The JSON round trip of a list.\<close>

lemma json_codec_round_trip:
  assumes "Marshal (json_codec mk) nl = Inr d"
  shows "d = Document (map json_News nl)"
    and "Unmarshal (json_codec mk) d = Inr (map json_News nl)"
  using assms by (auto simp: json_codec_def split: if_splits)

lemma json_codec_Marshal_cases:
  "Marshal (json_codec mk) nl = Inl ErrMarshal \<or>
   Marshal (json_codec mk) nl = Inr (Document (map json_News nl))"
  by (simp add: json_codec_def)

text \<open>The JSON round trip leaves a well-formed string as it is, and only such a string.\<close>

lemma json_string_valid_utf8: "valid_utf8 s \<Longrightarrow> json_string s = s"
proof (induction s rule: valid_utf8.induct)
  case 1
  show ?case by simp
next
  case (2 c cs)
  from "2.prems" have n: "rune_len (c # cs) \<noteq> 0"
    and v: "valid_utf8 (drop (rune_len (c # cs)) (c # cs))"
    by (simp_all split: if_splits)
  from "2.IH"[OF n v] have "json_string (drop (rune_len (c # cs)) (c # cs))
      = drop (rune_len (c # cs)) (c # cs)" .
  then have "json_string (c # cs)
      = take (rune_len (c # cs)) (c # cs) @ drop (rune_len (c # cs)) (c # cs)"
    using n by simp
  then show ?case by (simp only: append_take_drop_id)
qed

lemma map_ID_json_News:
  "list_all (\<lambda>n. valid_utf8 (ID n)) nl \<Longrightarrow> map ID (map json_News nl) = map ID nl"
  by (induction nl) (simp_all add: json_News_def json_string_valid_utf8)

lemma map_PublishedAt_json_News: "map PublishedAt (map json_News nl) = map PublishedAt nl"
  by (induction nl) (simp_all add: json_News_def)

lemma newer_first_json: "newer_first (map json_News nl) = newer_first nl"
  by (simp add: newer_first_dates map_PublishedAt_json_News del: map_map)

lemma sorted_capped_reload:
  assumes "newer_first nl" and "length nl \<le> 1000"
  shows "LimitTo (map json_News nl) 1000 = Inr (map json_News nl)"
    and "SortByDate (map json_News nl) = map json_News nl"
  using assms by (simp_all add: LimitTo_def newer_first_json SortByDate_newer_first_id)

lemma SaveToRepository_Some:
  assumes "repository a = Some rp"
  shows "fst (SaveToRepository (a, r)) = fst (SaveNews rp (news a) r)"
    and "saved (a, r) = snd (SaveNews rp (news a) r)"
  using assms by (simp_all add: saved_def SaveToRepository_def split: prod.split)

lemma Marshal_of_save:
  assumes "fst (FileCache_SaveNews (json_codec mk) f nl fs) = None"
  shows "Marshal (json_codec mk) nl = Inr (Document (map json_News nl))"
  using json_codec_Marshal_cases[of mk nl] assms by (auto simp: FileCache_SaveNews_def)

lemma file_save_load:
  assumes srt: "newer_first nl" and len: "length nl \<le> 1000"
    and ok: "fst (FileCache_SaveNews (json_codec mk) f nl fs) = None"
  shows "FileCache_GetLatestNews (json_codec mk) f 1000 (snd (FileCache_SaveNews (json_codec mk) f nl fs))
           = (Inr (map json_News nl), snd (FileCache_SaveNews (json_codec mk) f nl fs))"
proof -
  note enc = Marshal_of_save[OF ok]
  note dec = json_codec_round_trip(2)[OF enc]
  note sr = FileCache_save_then_read[OF ok enc dec]
  show ?thesis by (simp add: sr sorted_capped_reload(1)[OF srt len])
qed

lemma file_round_trip:
  assumes srt: "newer_first (news a)" and len: "length (news a) \<le> 1000"
    and rp: "repository a = Some (FileCache_repo (json_codec mk) f)"
    and ok: "fst (SaveToRepository (a, fs)) = None"
  shows "reloaded a (saved (a, fs))
           = (None, \<lparr>news = map json_News (news a), repository = repository a\<rparr>, saved (a, fs))"
proof -
  have s: "saved (a, fs) = snd (FileCache_SaveNews (json_codec mk) f (news a) fs)"
    by (simp add: SaveToRepository_Some(2)[OF rp] FileCache_repo_def)
  have w: "fst (FileCache_SaveNews (json_codec mk) f (news a) fs) = None"
    using ok by (simp add: SaveToRepository_Some(1)[OF rp] FileCache_repo_def)
  note g = file_save_load[OF srt len w]
  show ?thesis
    by (simp add: reloaded_def LoadFromRepository_def New_def rp FileCache_repo_def s g
        sorted_capped_reload(2)[OF srt len])
qed

lemma cached_round_trip:
  assumes srt: "newer_first (news a)" and len: "length (news a) \<le> 1000"
    and rp: "repository a = Some (CachedNewsRepository_repo
               (NewCachedNewsRepository ch (FileCache_repo (json_codec mk) f) t))"
    and ok: "fst (SaveToRepository (a, (cs, fs))) = None"
    and miss: "cache_Get ch (NewsCacheKey 1000) cs1 = Inl miss"
  shows "fst (reloaded a (cs1, snd (saved (a, (cs, fs))))) = None"
    and "news (fst (snd (reloaded a (cs1, snd (saved (a, (cs, fs))))))) = map json_News (news a)"
proof -
  let ?c = "NewCachedNewsRepository ch (FileCache_repo (json_codec mk) f) t"
  have k: "fst (CachedNewsRepository_SaveNews ?c (news a) (cs, fs)) = None"
    using ok by (simp add: SaveToRepository_Some(1)[OF rp] CachedNewsRepository_repo_def)
  from cached_save_success[OF k] have
    w: "fst (FileCache_SaveNews (json_codec mk) f (news a) fs) = None"
    and st: "snd (snd (CachedNewsRepository_SaveNews ?c (news a) (cs, fs)))
               = snd (FileCache_SaveNews (json_codec mk) f (news a) fs)"
    by (simp_all add: NewCachedNewsRepository_def FileCache_repo_def)
  have s: "snd (saved (a, (cs, fs))) = snd (FileCache_SaveNews (json_codec mk) f (news a) fs)"
    by (simp add: SaveToRepository_Some(2)[OF rp] CachedNewsRepository_repo_def st)
  note g = file_save_load[OF srt len w]
  have r: "fst (CachedNewsRepository_GetLatestNews ?c 1000
             (cs1, snd (FileCache_SaveNews (json_codec mk) f (news a) fs))) = Inr (map json_News (news a))"
    using cached_read_miss[of ?c 1000 cs1 miss] miss
    by (simp add: NewCachedNewsRepository_def FileCache_repo_def g)
  have l: "\<And>x. fst x = Inr (map json_News (news a)) \<Longrightarrow>
      (case x of (Inl err, r') \<Rightarrow> (Some err, b, r') | (Inr nl, r') \<Rightarrow> (None, b\<lparr>news := SortByDate nl\<rparr>, r'))
      = (None, b\<lparr>news := map json_News (news a)\<rparr>, snd x)" for b :: "('c \<times> document fsys) Aggregator"
    by (auto simp: sorted_capped_reload(2)[OF srt len] split: prod.split sum.split)
  have "reloaded a (cs1, snd (saved (a, (cs, fs)))) =
     (None, (New (repository a))\<lparr>news := map json_News (news a)\<rparr>,
      snd (CachedNewsRepository_GetLatestNews ?c 1000
             (cs1, snd (FileCache_SaveNews (json_codec mk) f (news a) fs))))"
    by (simp add: reloaded_def LoadFromRepository_def New_def rp CachedNewsRepository_repo_def s l[OF r])
  then show "fst (reloaded a (cs1, snd (saved (a, (cs, fs))))) = None"
    and "news (fst (snd (reloaded a (cs1, snd (saved (a, (cs, fs))))))) = map json_News (news a)"
    by simp_all
qed

text \<open>The in-memory cache holds no value for the key of the limit 1000 after a save.\<close>

lemma memory_invalidated_1000:
  "data (fold (\<lambda>key cs'. snd (cache_Delete (MemoryCache_cache js) key cs')) invalidated_keys m)
     (NewsCacheKey 1000) = None"
  by (simp add: invalidated_keys_def MemoryCache_cache_def MemoryCache_Delete_def)

lemma memory_saved_miss:
  assumes rp: "repository a = Some (cachedStorage mk f t)"
    and ok: "fst (SaveToRepository (a, (m, fs))) = None"
  shows "cache_Get (MemoryCache_cache (json_codec mk)) (NewsCacheKey 1000)
           ((fst (saved (a, (m, fs))))\<lparr>clock := now\<rparr>) = Inl ErrCacheMiss"
proof -
  let ?c = "NewCachedNewsRepository (MemoryCache_cache (json_codec mk))
              (FileCache_repo (json_codec mk) f) t"
  have k: "fst (CachedNewsRepository_SaveNews ?c (news a) (m, fs)) = None"
    using ok SaveToRepository_Some(1)[OF rp, of "(m, fs)"]
    by (simp add: cachedStorage_def CachedNewsRepository_repo_def)
  from cached_save_success[OF k] have
    "fst (snd (CachedNewsRepository_SaveNews ?c (news a) (m, fs))) =
       fold (\<lambda>key cs'. snd (cache_Delete (MemoryCache_cache (json_codec mk)) key cs')) invalidated_keys m"
    by (simp add: NewCachedNewsRepository_def)
  then have "fst (saved (a, (m, fs))) =
       fold (\<lambda>key cs'. snd (cache_Delete (MemoryCache_cache (json_codec mk)) key cs')) invalidated_keys m"
    using SaveToRepository_Some(2)[OF rp, of "(m, fs)"]
    by (simp add: cachedStorage_def CachedNewsRepository_repo_def)
  then have "data ((fst (saved (a, (m, fs))))\<lparr>clock := now\<rparr>) (NewsCacheKey 1000) = None"
    by (simp add: memory_invalidated_1000)
  then show ?thesis
    by (simp add: MemoryCache_cache_def MemoryCache_Get_miss)
qed

lemma bounded_items_Delete: "bounded_items m \<Longrightarrow> bounded_items (snd (MemoryCache_Delete key m))"
  by (simp add: bounded_items_def MemoryCache_Delete_def)

lemma bounded_items_Set:
  "bounded_items m \<Longrightarrow> length v \<le> 1000 \<Longrightarrow> bounded_items (snd (MemoryCache_Set key v t m))"
  by (simp add: bounded_items_def MemoryCache_Set_def Let_def)

lemma bounded_items_invalidate:
  "bounded_items m \<Longrightarrow>
   bounded_items (fold (\<lambda>key cs'. snd (cache_Delete (MemoryCache_cache js) key cs')) ks m)"
  by (induction ks arbitrary: m) (simp_all add: MemoryCache_cache_def bounded_items_Delete)

lemma bounded_items_cleanup: "bounded_items m \<Longrightarrow> bounded_items (cleanup m)"
  by (auto simp: bounded_items_def cleanup_def split: option.splits if_splits)

lemma bounded_items_clock: "bounded_items m \<Longrightarrow> bounded_items (m\<lparr>clock := now\<rparr>)"
  by (simp add: bounded_items_def)

lemma bounded_items_New: "bounded_items (NewMemoryCache d i now)"
  by (simp add: bounded_items_def NewMemoryCache_def)

lemma bounded_items_SaveNews:
  assumes "bounded_items m"
  shows "bounded_items (fst (snd (SaveNews (cachedStorage mk f t) nl (m, fs))))"
proof -
  obtain e fs' where w: "FileCache_SaveNews (json_codec mk) f nl fs = (e, fs')"
    by (cases "FileCache_SaveNews (json_codec mk) f nl fs")
  show ?thesis
  proof (cases e)
    case None
    then have "SaveNews (cachedStorage mk f t) nl (m, fs) =
       (None, fold (\<lambda>key cs'. snd (cache_Delete (MemoryCache_cache (json_codec mk)) key cs'))
                invalidated_keys m, fs')"
      using w by (simp add: cachedStorage_def CachedNewsRepository_repo_def
          CachedNewsRepository_SaveNews_def NewCachedNewsRepository_def FileCache_repo_def)
    then show ?thesis using assms by (simp add: bounded_items_invalidate)
  next
    case (Some err)
    then have "SaveNews (cachedStorage mk f t) nl (m, fs) = (Some err, m, fs')"
      using w by (simp add: cachedStorage_def CachedNewsRepository_repo_def
          CachedNewsRepository_SaveNews_def NewCachedNewsRepository_def FileCache_repo_def)
    then show ?thesis using assms by simp
  qed
qed

lemma MemoryCache_Get_length:
  assumes "bounded_items m" and "MemoryCache_Get (json_codec mk) key m = Inr nl"
  shows "length nl \<le> 1000"
proof -
  from assms(2) obtain it where it: "data m key = Some it"
    and g: "(case Marshal (json_codec mk) (item_value it) of Inl err \<Rightarrow> Inl err
             | Inr d \<Rightarrow> Unmarshal (json_codec mk) d) = Inr nl"
    by (auto simp: MemoryCache_Get_def split: option.splits if_splits)
  from g have "nl = map json_News (item_value it)"
    using json_codec_Marshal_cases[of mk "item_value it"] by (auto simp: json_codec_def)
  then show ?thesis using assms(1) it by (simp add: bounded_items_def)
qed

lemma cached_GetLatestNews_bounded:
  assumes b: "bounded_items m"
  shows "bounded_items (fst (snd (GetLatestNews (cachedStorage mk f t) 1000 (m, fs))))
       \<and> (\<forall>nl. fst (GetLatestNews (cachedStorage mk f t) 1000 (m, fs)) = Inr nl \<longrightarrow> length nl \<le> 1000)"
proof (cases "MemoryCache_Get (json_codec mk) (NewsCacheKey 1000) m")
  case (Inr cachedNews)
  then have "GetLatestNews (cachedStorage mk f t) 1000 (m, fs) = (Inr cachedNews, m, fs)"
    by (simp add: cachedStorage_def CachedNewsRepository_repo_def CachedNewsRepository_GetLatestNews_def
        NewCachedNewsRepository_def MemoryCache_cache_def)
  then show ?thesis using b MemoryCache_Get_length[OF b Inr] by simp
next
  case (Inl miss)
  obtain res fs' where g: "FileCache_GetLatestNews (json_codec mk) f 1000 fs = (res, fs')"
    by (cases "FileCache_GetLatestNews (json_codec mk) f 1000 fs")
  show ?thesis
  proof (cases res)
    case (Inl err)
    then have "GetLatestNews (cachedStorage mk f t) 1000 (m, fs) = (Inl err, m, fs')"
      using \<open>MemoryCache_Get (json_codec mk) (NewsCacheKey 1000) m = Inl miss\<close> g
      by (simp add: cachedStorage_def CachedNewsRepository_repo_def CachedNewsRepository_GetLatestNews_def
          NewCachedNewsRepository_def MemoryCache_cache_def FileCache_repo_def)
    then show ?thesis using b by simp
  next
    case (Inr nl)
    then have e: "GetLatestNews (cachedStorage mk f t) 1000 (m, fs) =
        (Inr nl, snd (MemoryCache_Set (NewsCacheKey 1000) nl t m), fs')"
      using \<open>MemoryCache_Get (json_codec mk) (NewsCacheKey 1000) m = Inl miss\<close> g
      by (simp add: cachedStorage_def CachedNewsRepository_repo_def CachedNewsRepository_GetLatestNews_def
          NewCachedNewsRepository_def MemoryCache_cache_def FileCache_repo_def)
    from g Inr have "length nl \<le> 1000" using FileCache_GetLatestNews_length by blast
    then show ?thesis using b by (simp add: e bounded_items_Set)
  qed
qed

lemma reachable_cached_invariant:
  "reachable_cached mk f t a m \<Longrightarrow>
     newer_first (news a) \<and> length (news a) \<le> 1000 \<and> repository a = Some (cachedStorage mk f t)
     \<and> bounded_items m"
proof (induction rule: reachable_cached.induct)
  case (rc_New d i now)
  show ?case by (simp add: New_def newer_first_def bounded_items_New)
next
  case (rc_addNews a m newNews fs)
  then have rp: "repository a = Some (cachedStorage mk f t)" and b: "bounded_items m" by simp_all
  have l: "length (news (fst (addNews newNews (a, (m, fs))))) \<le> 1000" by (simp add: news_addNews)
  have "snd (addNews newNews (a, (m, fs))) =
      snd (SaveNews (cachedStorage mk f t) (news (fst (addNews newNews (a, (m, fs))))) (m, fs))"
    using rp by (simp add: addNews_def removeDuplicates_def Let_def)
  then have "bounded_items (fst (snd (addNews newNews (a, (m, fs)))))"
    using bounded_items_SaveNews[OF b] by simp
  then show ?case using l rp by (simp add: newer_first_addNews repository_addNews)
next
  case (rc_Load a m fs)
  then have rp: "repository a = Some (cachedStorage mk f t)" and b: "bounded_items m" by simp_all
  note gb = cached_GetLatestNews_bounded[OF b, of mk f t fs]
  from LoadFromRepository_cases[OF rp, of "(m, fs)"] show ?case
  proof
    assume e: "LoadFromRepository (a, (m, fs)) =
      (fst (LoadFromRepository (a, (m, fs))), a, snd (GetLatestNews (cachedStorage mk f t) 1000 (m, fs)))"
    have "fst (snd (LoadFromRepository (a, (m, fs)))) = a"
      by (subst e) simp
    moreover have "fst (snd (snd (LoadFromRepository (a, (m, fs)))))
        = fst (snd (GetLatestNews (cachedStorage mk f t) 1000 (m, fs)))"
      by (subst e) simp
    ultimately show ?thesis using rc_Load.IH gb by simp
  next
    assume "\<exists>nl. fst (GetLatestNews (cachedStorage mk f t) 1000 (m, fs)) = Inr nl \<and>
            LoadFromRepository (a, (m, fs)) =
              (None, a\<lparr>news := SortByDate nl\<rparr>, snd (GetLatestNews (cachedStorage mk f t) 1000 (m, fs)))"
    then obtain nl where g: "fst (GetLatestNews (cachedStorage mk f t) 1000 (m, fs)) = Inr nl"
      and l: "LoadFromRepository (a, (m, fs)) =
              (None, a\<lparr>news := SortByDate nl\<rparr>, snd (GetLatestNews (cachedStorage mk f t) 1000 (m, fs)))"
      by blast
    from g gb have "length nl \<le> 1000" by blast
    then show ?thesis using rp gb by (simp add: l SortByDate_newer_first)
  qed
next
  case (rc_Save a m fs)
  then have rp: "repository a = Some (cachedStorage mk f t)" and b: "bounded_items m" by simp_all
  have "fst (snd (snd (SaveToRepository (a, (m, fs))))) =
      fst (snd (SaveNews (cachedStorage mk f t) (news a) (m, fs)))"
    using SaveToRepository_Some(2)[OF rp, of "(m, fs)"] by (simp add: saved_def)
  then show ?case using rc_Save.IH bounded_items_SaveNews[OF b] by (simp add: SaveToRepository_state)
next
  case (rc_clock a m now)
  then show ?case by (simp add: bounded_items_clock)
next
  case (rc_cleanup a m)
  then show ?case by (simp add: bounded_items_cleanup)
qed

section \<open>Round trip\<close>

lemma ids_kept:
  assumes "list_all (\<lambda>n. valid_utf8 (ID n)) nl" and "news b = map json_News nl"
  shows "map ID (news b) = map ID nl" and "map PublishedAt (news b) = map PublishedAt nl"
  using assms by (simp_all add: map_ID_json_News map_PublishedAt_json_News del: map_map)

text \<open>
  Claim C5, as amended. Take a state of the aggregator in which every id is well-formed
  UTF-8, and let \<open>SaveToRepository\<close> succeed. Then \<open>LoadFromRepository\<close> on a
  fresh, empty aggregator over the same repository succeeds and reconstructs a list with
  the ids (and the publication instants) of the saved list, in the same order. This holds
  over the file repository, for every state that the operations of the aggregator
  produce; over the cache-aside layer with the in-memory cache and the file repository,
  for every state that the operations, the clock and the sweep of the cache produce, the
  load taking place at any instant \<open>now\<close>; and over the cache-aside layer with any
  cache and the file repository, for every state that \<open>addNews\<close> produces, when the
  cache gives no value for the key of the limit 1000 at the load. The documents are those
  of \<open>encoding/json\<close>.
\<close>

theorem save_load_round_trip:
  "(reachable (json_codec mk) f a \<and> list_all (\<lambda>n. valid_utf8 (ID n)) (news a) \<and>
    fst (SaveToRepository (a, fs)) = None \<longrightarrow>
      fst (reloaded a (saved (a, fs))) = None \<and>
      map ID (news (fst (snd (reloaded a (saved (a, fs)))))) = map ID (news a) \<and>
      map PublishedAt (news (fst (snd (reloaded a (saved (a, fs)))))) = map PublishedAt (news a))
   \<and>
   (reachable_cached mk f t b m \<and> list_all (\<lambda>n. valid_utf8 (ID n)) (news b) \<and>
    fst (SaveToRepository (b, (m, fs'))) = None \<longrightarrow>
      fst (reloaded b ((fst (saved (b, (m, fs'))))\<lparr>clock := now\<rparr>, snd (saved (b, (m, fs'))))) = None \<and>
      map ID (news (fst (snd (reloaded b
         ((fst (saved (b, (m, fs'))))\<lparr>clock := now\<rparr>, snd (saved (b, (m, fs')))))))) = map ID (news b) \<and>
      map PublishedAt (news (fst (snd (reloaded b
         ((fst (saved (b, (m, fs'))))\<lparr>clock := now\<rparr>, snd (saved (b, (m, fs'))))))))
        = map PublishedAt (news b))
   \<and>
   (repository c0 = Some (CachedNewsRepository_repo
        (NewCachedNewsRepository ch (FileCache_repo (json_codec mk) f) t)) \<and>
    c = fst (addNews newNews (c0, st0)) \<and> list_all (\<lambda>n. valid_utf8 (ID n)) (news c) \<and>
    fst (SaveToRepository (c, (cs, fs''))) = None \<and>
    cache_Get ch (NewsCacheKey 1000) cs1 = Inl miss \<longrightarrow>
      fst (reloaded c (cs1, snd (saved (c, (cs, fs''))))) = None \<and>
      map ID (news (fst (snd (reloaded c (cs1, snd (saved (c, (cs, fs'')))))))) = map ID (news c) \<and>
      map PublishedAt (news (fst (snd (reloaded c (cs1, snd (saved (c, (cs, fs''))))))))
        = map PublishedAt (news c))"
proof (intro conjI impI)
  assume h: "reachable (json_codec mk) f a \<and> list_all (\<lambda>n. valid_utf8 (ID n)) (news a) \<and>
    fst (SaveToRepository (a, fs)) = None"
  then have i: "newer_first (news a)" "length (news a) \<le> 1000"
      "repository a = Some (FileCache_repo (json_codec mk) f)"
    using reachable_invariant[of "json_codec mk" f a] by simp_all
  from h have ok: "fst (SaveToRepository (a, fs)) = None" by simp
  note r = file_round_trip[OF i ok]
  from r show "fst (reloaded a (saved (a, fs))) = None" by simp
  from r have n: "news (fst (snd (reloaded a (saved (a, fs))))) = map json_News (news a)" by simp
  from h have v: "list_all (\<lambda>n. valid_utf8 (ID n)) (news a)" by simp
  show "map ID (news (fst (snd (reloaded a (saved (a, fs)))))) = map ID (news a)"
    by (rule ids_kept(1)[OF v n])
  show "map PublishedAt (news (fst (snd (reloaded a (saved (a, fs)))))) = map PublishedAt (news a)"
    by (rule ids_kept(2)[OF v n])
next
  assume h: "reachable_cached mk f t b m \<and> list_all (\<lambda>n. valid_utf8 (ID n)) (news b) \<and>
    fst (SaveToRepository (b, (m, fs'))) = None"
  then have i: "newer_first (news b)" "length (news b) \<le> 1000"
    and rp: "repository b = Some (cachedStorage mk f t)"
    using reachable_cached_invariant[of mk f t b m] by simp_all
  from h have ok: "fst (SaveToRepository (b, (m, fs'))) = None" by simp
  from h have v: "list_all (\<lambda>n. valid_utf8 (ID n)) (news b)" by simp
  note miss = memory_saved_miss[OF rp ok, of now]
  note r = cached_round_trip[OF i rp[unfolded cachedStorage_def] ok miss]
  show "fst (reloaded b ((fst (saved (b, (m, fs'))))\<lparr>clock := now\<rparr>, snd (saved (b, (m, fs'))))) = None"
    by (rule r(1))
  show "map ID (news (fst (snd (reloaded b
         ((fst (saved (b, (m, fs'))))\<lparr>clock := now\<rparr>, snd (saved (b, (m, fs')))))))) = map ID (news b)"
    by (rule ids_kept(1)[OF v r(2)])
  show "map PublishedAt (news (fst (snd (reloaded b
         ((fst (saved (b, (m, fs'))))\<lparr>clock := now\<rparr>, snd (saved (b, (m, fs'))))))))
        = map PublishedAt (news b)"
    by (rule ids_kept(2)[OF v r(2)])
next
  assume h: "repository c0 = Some (CachedNewsRepository_repo
        (NewCachedNewsRepository ch (FileCache_repo (json_codec mk) f) t)) \<and>
    c = fst (addNews newNews (c0, st0)) \<and> list_all (\<lambda>n. valid_utf8 (ID n)) (news c) \<and>
    fst (SaveToRepository (c, (cs, fs''))) = None \<and>
    cache_Get ch (NewsCacheKey 1000) cs1 = Inl miss"
  then have c: "c = fst (addNews newNews (c0, st0))" by blast
  have "newer_first (news c)" unfolding c by (rule newer_first_addNews)
  moreover have "length (news c) \<le> 1000" unfolding c by (simp add: news_addNews)
  ultimately have i: "newer_first (news c)" "length (news c) \<le> 1000" by simp_all
  from h have "repository c0 = Some (CachedNewsRepository_repo
        (NewCachedNewsRepository ch (FileCache_repo (json_codec mk) f) t))" by blast
  then have rp: "repository c = Some (CachedNewsRepository_repo
        (NewCachedNewsRepository ch (FileCache_repo (json_codec mk) f) t))"
    unfolding c by (simp add: repository_addNews)
  from h have ok: "fst (SaveToRepository (c, (cs, fs''))) = None"
    and miss: "cache_Get ch (NewsCacheKey 1000) cs1 = Inl miss"
    and v: "list_all (\<lambda>n. valid_utf8 (ID n)) (news c)" by blast+
  note r = cached_round_trip[OF i rp ok miss]
  show "fst (reloaded c (cs1, snd (saved (c, (cs, fs''))))) = None" by (rule r(1))
  show "map ID (news (fst (snd (reloaded c (cs1, snd (saved (c, (cs, fs'')))))))) = map ID (news c)"
    by (rule ids_kept(1)[OF v r(2)])
  show "map PublishedAt (news (fst (snd (reloaded c (cs1, snd (saved (c, (cs, fs''))))))))
        = map PublishedAt (news c)"
    by (rule ids_kept(2)[OF v r(2)])
qed

lemma merged_example:
  "merged [] [item ''b'' 5, item ''c'' 9, item ''a'' 7] = [item ''c'' 9, item ''a'' 7, item ''b'' 5]"
  by (simp add: merged_def SortByDate_def inner_loop_def
      swap_step_def Before_def item_def upt_rec)

lemma valid_utf8_examples:
  "valid_utf8 ''c''" "valid_utf8 ''a''" "valid_utf8 ''b''"
  "\<not> valid_utf8 [CHR 0xFF]" "\<not> valid_utf8 [CHR 0xFE]"
  by code_simp+

lemma json_string_invalid:
  "json_string [CHR 0xFF] = [CHR 0xEF, CHR 0xBF, CHR 0xBD]"
  "json_string [CHR 0xFE] = [CHR 0xEF, CHR 0xBF, CHR 0xBD]"
  by code_simp+

lemma merged_invalid:
  "merged [] [item [CHR 0xFF] 2, item [CHR 0xFE] 1] = [item [CHR 0xFF] 2, item [CHR 0xFE] 1]"
  by (simp add: merged_def SortByDate_def inner_loop_def
      swap_step_def Before_def item_def upt_rec)

lemma save_new_file:
  assumes "repository a = Some (FileCache_repo (json_codec (\<lambda>t. True)) (NewFileCache ''news.json''))"
  shows "fst (SaveToRepository (a, \<lambda>p. NoFile)) = None"
  by (simp add: SaveToRepository_Some(1)[OF assms] FileCache_repo_def FileCache_SaveNews_def
      json_codec_def WriteFile_def list_all_iff)

lemma save_new_file_cached:
  assumes "repository a = Some (cachedStorage (\<lambda>t. True) (NewFileCache ''news.json'') t)"
  shows "fst (SaveToRepository (a, (m, \<lambda>p. NoFile))) = None"
  by (simp add: SaveToRepository_Some(1)[OF assms] cachedStorage_def CachedNewsRepository_repo_def
      CachedNewsRepository_SaveNews_def NewCachedNewsRepository_def
      FileCache_repo_def FileCache_SaveNews_def json_codec_def WriteFile_def list_all_iff)

lemma save_new_file_layer:
  assumes "repository a = Some (CachedNewsRepository_repo
     (NewCachedNewsRepository ch (FileCache_repo (json_codec (\<lambda>t. True)) (NewFileCache ''news.json'')) t))"
  shows "fst (SaveToRepository (a, (cs, \<lambda>p. NoFile))) = None"
  by (simp add: SaveToRepository_Some(1)[OF assms] CachedNewsRepository_repo_def
      CachedNewsRepository_SaveNews_def NewCachedNewsRepository_def
      FileCache_repo_def FileCache_SaveNews_def json_codec_def WriteFile_def list_all_iff)

theorem save_load_round_trip_witness:
  "map ID (news (fst (snd (reloaded
      (fst (addNews [item ''b'' 5, item ''c'' 9, item ''a'' 7]
         (New (Some (FileCache_repo (json_codec (\<lambda>t. True)) (NewFileCache ''news.json''))),
          \<lambda>p. NoFile)))
      (saved (fst (addNews [item ''b'' 5, item ''c'' 9, item ''a'' 7]
         (New (Some (FileCache_repo (json_codec (\<lambda>t. True)) (NewFileCache ''news.json''))),
          \<lambda>p. NoFile)), \<lambda>p. NoFile))))))
   = [''c'', ''a'', ''b''] \<and>
   map ID (news (fst (snd (reloaded
      (fst (addNews [item ''b'' 5, item ''c'' 9, item ''a'' 7]
         (New (Some (cachedStorage (\<lambda>t. True) (NewFileCache ''news.json'') 300000000000)),
          (NewMemoryCache 300000000000 600000000000 0, \<lambda>p. NoFile))))
      ((fst (saved (fst (addNews [item ''b'' 5, item ''c'' 9, item ''a'' 7]
         (New (Some (cachedStorage (\<lambda>t. True) (NewFileCache ''news.json'') 300000000000)),
          (NewMemoryCache 300000000000 600000000000 0, \<lambda>p. NoFile))),
          (fst (snd (addNews [item ''b'' 5, item ''c'' 9, item ''a'' 7]
         (New (Some (cachedStorage (\<lambda>t. True) (NewFileCache ''news.json'') 300000000000)),
          (NewMemoryCache 300000000000 600000000000 0, \<lambda>p. NoFile))))), \<lambda>p. NoFile)))\<lparr>clock := 7\<rparr>,
       snd (saved (fst (addNews [item ''b'' 5, item ''c'' 9, item ''a'' 7]
         (New (Some (cachedStorage (\<lambda>t. True) (NewFileCache ''news.json'') 300000000000)),
          (NewMemoryCache 300000000000 600000000000 0, \<lambda>p. NoFile))),
          (fst (snd (addNews [item ''b'' 5, item ''c'' 9, item ''a'' 7]
         (New (Some (cachedStorage (\<lambda>t. True) (NewFileCache ''news.json'') 300000000000)),
          (NewMemoryCache 300000000000 600000000000 0, \<lambda>p. NoFile))))), \<lambda>p. NoFile)))))))
   = [''c'', ''a'', ''b''] \<and>
   map ID (news (fst (snd (reloaded
      (fst (addNews [item ''b'' 5, item ''c'' 9, item ''a'' 7]
         (New (Some (CachedNewsRepository_repo (NewCachedNewsRepository
            (RedisCache_cache (json_codec (\<lambda>t. True)))
            (FileCache_repo (json_codec (\<lambda>t. True)) (NewFileCache ''news.json'')) 300000000000))),
          (fresh_redis, \<lambda>p. NoFile))))
      (fresh_redis,
       snd (saved (fst (addNews [item ''b'' 5, item ''c'' 9, item ''a'' 7]
         (New (Some (CachedNewsRepository_repo (NewCachedNewsRepository
            (RedisCache_cache (json_codec (\<lambda>t. True)))
            (FileCache_repo (json_codec (\<lambda>t. True)) (NewFileCache ''news.json'')) 300000000000))),
          (fresh_redis, \<lambda>p. NoFile))), (fresh_redis, \<lambda>p. NoFile))))))))
   = [''c'', ''a'', ''b'']"
proof -
  let ?three = "[item ''b'' 5, item ''c'' 9, item ''a'' 7]"
  let ?f = "NewFileCache ''news.json''"
  let ?a = "fst (addNews ?three (New (Some (FileCache_repo (json_codec (\<lambda>t. True)) ?f)), \<lambda>p. NoFile))"
  let ?st = "addNews ?three (New (Some (cachedStorage (\<lambda>t. True) ?f 300000000000)),
          (NewMemoryCache 300000000000 600000000000 0, \<lambda>p. NoFile))"
  have ids: "map ID [item ''c'' 9, item ''a'' 7, item ''b'' 5] = [''c'', ''a'', ''b'']"
    by (simp add: item_def)
  have v: "list_all (\<lambda>n. valid_utf8 (ID n)) [item ''c'' 9, item ''a'' 7, item ''b'' 5]"
    by (simp add: item_def valid_utf8_examples del: valid_utf8.simps)
  have r: "reachable (json_codec (\<lambda>t. True)) ?f ?a"
    by (intro reach_addNews reach_New)
  have n: "news ?a = [item ''c'' 9, item ''a'' 7, item ''b'' 5]"
    by (simp add: news_addNews_merged New_def merged_example)
  have rp: "repository ?a = Some (FileCache_repo (json_codec (\<lambda>t. True)) ?f)"
    by (simp add: repository_addNews New_def)
  have 1: "map ID (news (fst (snd (reloaded ?a (saved (?a, \<lambda>p. NoFile)))))) = map ID (news ?a)"
  proof -
    have "list_all (\<lambda>n. valid_utf8 (ID n)) (news ?a)" using v by (simp only: n)
    with r save_new_file[OF rp]
    have h: "reachable (json_codec (\<lambda>t. True)) ?f ?a \<and> list_all (\<lambda>n. valid_utf8 (ID n)) (news ?a) \<and>
        fst (SaveToRepository (?a, \<lambda>p. NoFile)) = None"
      by (intro conjI)
    show ?thesis
      by (rule save_load_round_trip [THEN conjunct1, THEN mp, OF h, THEN conjunct2, THEN conjunct1])
  qed
  have rc: "reachable_cached (\<lambda>t. True) ?f 300000000000 (fst ?st) (fst (snd ?st))"
    by (intro rc_addNews rc_New)
  have nc: "news (fst ?st) = [item ''c'' 9, item ''a'' 7, item ''b'' 5]"
    by (simp add: news_addNews_merged New_def merged_example)
  have rpc: "repository (fst ?st) = Some (cachedStorage (\<lambda>t. True) ?f 300000000000)"
    by (simp add: repository_addNews New_def)
  have 2: "map ID (news (fst (snd (reloaded (fst ?st)
         ((fst (saved (fst ?st, (fst (snd ?st), \<lambda>p. NoFile))))\<lparr>clock := 7\<rparr>,
           snd (saved (fst ?st, (fst (snd ?st), \<lambda>p. NoFile)))))))) = map ID (news (fst ?st))"
  proof -
    have "list_all (\<lambda>n. valid_utf8 (ID n)) (news (fst ?st))" using v by (simp only: nc)
    with rc save_new_file_cached[OF rpc]
    have h: "reachable_cached (\<lambda>t. True) ?f 300000000000 (fst ?st) (fst (snd ?st)) \<and>
        list_all (\<lambda>n. valid_utf8 (ID n)) (news (fst ?st)) \<and>
        fst (SaveToRepository (fst ?st, (fst (snd ?st), \<lambda>p. NoFile))) = None"
      by (intro conjI)
    show ?thesis
      by (rule save_load_round_trip [THEN conjunct2, THEN conjunct1, THEN mp, OF h,
            THEN conjunct2, THEN conjunct1])
  qed
  let ?start = "New (Some (CachedNewsRepository_repo (NewCachedNewsRepository
            (RedisCache_cache (json_codec (\<lambda>t. True)))
            (FileCache_repo (json_codec (\<lambda>t. True)) ?f) 300000000000)))
            :: (document RedisCache \<times> document fsys) Aggregator"
  let ?agg = "fst (addNews ?three (?start, (fresh_redis, \<lambda>p. NoFile)))"
  have nr: "news ?agg = [item ''c'' 9, item ''a'' 7, item ''b'' 5]"
    by (simp add: news_addNews_merged New_def merged_example)
  have rp0: "repository ?start = Some (CachedNewsRepository_repo (NewCachedNewsRepository
            (RedisCache_cache (json_codec (\<lambda>t. True)))
            (FileCache_repo (json_codec (\<lambda>t. True)) ?f) 300000000000))"
    by (simp add: New_def)
  have rpr: "repository ?agg = Some (CachedNewsRepository_repo (NewCachedNewsRepository
            (RedisCache_cache (json_codec (\<lambda>t. True)))
            (FileCache_repo (json_codec (\<lambda>t. True)) ?f) 300000000000))"
    using repository_addNews[of ?three ?start "(fresh_redis, \<lambda>p. NoFile)"] by (simp add: New_def)
  have miss: "cache_Get (RedisCache_cache (json_codec (\<lambda>t. True))) (NewsCacheKey 1000)
                (fresh_redis :: document RedisCache) = Inl ErrCacheMiss"
    by (simp add: RedisCache_cache_def RedisCache_Get_def fresh_redis_def)
  have 3: "map ID (news (fst (snd (reloaded ?agg
         (fresh_redis, snd (saved (?agg, (fresh_redis, \<lambda>p. NoFile)))))))) = map ID (news ?agg)"
  proof -
    have "list_all (\<lambda>n. valid_utf8 (ID n)) (news ?agg)" using v by (simp only: nr)
    with rp0 save_new_file_layer[OF rpr, of fresh_redis] miss
    have h: "repository ?start = Some (CachedNewsRepository_repo (NewCachedNewsRepository
            (RedisCache_cache (json_codec (\<lambda>t. True)))
            (FileCache_repo (json_codec (\<lambda>t. True)) ?f) 300000000000)) \<and>
        ?agg = fst (addNews ?three (?start, (fresh_redis, \<lambda>p. NoFile))) \<and>
        list_all (\<lambda>n. valid_utf8 (ID n)) (news ?agg) \<and>
        fst (SaveToRepository (?agg, (fresh_redis, \<lambda>p. NoFile))) = None \<and>
        cache_Get (RedisCache_cache (json_codec (\<lambda>t. True))) (NewsCacheKey 1000)
                (fresh_redis :: document RedisCache) = Inl ErrCacheMiss"
      by (intro conjI refl)
    show ?thesis
      by (rule save_load_round_trip [THEN conjunct2, THEN conjunct2, THEN mp, OF h,
            THEN conjunct2, THEN conjunct1])
  qed
  show ?thesis using 1 2 3 by (simp only: n nc nr ids simp_thms)
qed

text \<open>
  The claim as stated fails on ids that are not well-formed UTF-8, which
  \<open>encoding/json\<close> writes as U+FFFD. After \<open>addNews\<close> of two items with the ids
  of the single bytes \<open>FF\<close> and \<open>FE\<close> into the fresh aggregator over the file repository, the
  save succeeds, the load succeeds, and both ids come back as U+FFFD.
\<close>

theorem save_load_invalid_utf8_counterexample:
  "reachable (json_codec (\<lambda>t. True)) (NewFileCache ''news.json'')
     (fst (addNews [item [CHR 0xFF] 2, item [CHR 0xFE] 1]
         (New (Some (FileCache_repo (json_codec (\<lambda>t. True)) (NewFileCache ''news.json''))),
          \<lambda>p. NoFile))) \<and>
   map ID (news (fst (addNews [item [CHR 0xFF] 2, item [CHR 0xFE] 1]
         (New (Some (FileCache_repo (json_codec (\<lambda>t. True)) (NewFileCache ''news.json''))),
          \<lambda>p. NoFile)))) = [[CHR 0xFF], [CHR 0xFE]] \<and>
   fst (SaveToRepository (fst (addNews [item [CHR 0xFF] 2, item [CHR 0xFE] 1]
         (New (Some (FileCache_repo (json_codec (\<lambda>t. True)) (NewFileCache ''news.json''))),
          \<lambda>p. NoFile)), \<lambda>p. NoFile)) = None \<and>
   fst (reloaded
      (fst (addNews [item [CHR 0xFF] 2, item [CHR 0xFE] 1]
         (New (Some (FileCache_repo (json_codec (\<lambda>t. True)) (NewFileCache ''news.json''))),
          \<lambda>p. NoFile)))
      (saved (fst (addNews [item [CHR 0xFF] 2, item [CHR 0xFE] 1]
         (New (Some (FileCache_repo (json_codec (\<lambda>t. True)) (NewFileCache ''news.json''))),
          \<lambda>p. NoFile)), \<lambda>p. NoFile))) = None \<and>
   map ID (news (fst (snd (reloaded
      (fst (addNews [item [CHR 0xFF] 2, item [CHR 0xFE] 1]
         (New (Some (FileCache_repo (json_codec (\<lambda>t. True)) (NewFileCache ''news.json''))),
          \<lambda>p. NoFile)))
      (saved (fst (addNews [item [CHR 0xFF] 2, item [CHR 0xFE] 1]
         (New (Some (FileCache_repo (json_codec (\<lambda>t. True)) (NewFileCache ''news.json''))),
          \<lambda>p. NoFile)), \<lambda>p. NoFile))))))
   = [[CHR 0xEF, CHR 0xBF, CHR 0xBD], [CHR 0xEF, CHR 0xBF, CHR 0xBD]] \<and>
   [[CHR 0xEF, CHR 0xBF, CHR 0xBD], [CHR 0xEF, CHR 0xBF, CHR 0xBD]] \<noteq> [[CHR 0xFF], [CHR 0xFE]]"
proof -
  let ?two = "[item [CHR 0xFF] 2, item [CHR 0xFE] 1]"
  let ?f = "NewFileCache ''news.json''"
  let ?a = "fst (addNews ?two (New (Some (FileCache_repo (json_codec (\<lambda>t. True)) ?f)), \<lambda>p. NoFile))"
  have r: "reachable (json_codec (\<lambda>t. True)) ?f ?a"
    by (intro reach_addNews reach_New)
  have n: "news ?a = ?two"
    by (simp add: news_addNews_merged New_def merged_invalid)
  have rp: "repository ?a = Some (FileCache_repo (json_codec (\<lambda>t. True)) ?f)"
    by (simp add: repository_addNews New_def)
  note ok = save_new_file[OF rp]
  from reachable_invariant[OF r] have i: "newer_first (news ?a)" "length (news ?a) \<le> 1000"
    by simp_all
  note l = file_round_trip[OF i rp ok]
  have 1: "fst (reloaded ?a (saved (?a, \<lambda>p. NoFile))) = None" by (subst l) simp
  have "news (fst (snd (reloaded ?a (saved (?a, \<lambda>p. NoFile))))) = map json_News (news ?a)"
    by (subst l) simp
  then have e: "news (fst (snd (reloaded ?a (saved (?a, \<lambda>p. NoFile))))) = map json_News ?two"
    by (simp only: n)
  have "map ID (map json_News ?two) = [json_string [CHR 0xFF], json_string [CHR 0xFE]]"
    by (simp add: json_News_def item_def del: json_string.simps)
  then have 2: "map ID (news (fst (snd (reloaded ?a (saved (?a, \<lambda>p. NoFile))))))
     = [[CHR 0xEF, CHR 0xBF, CHR 0xBD], [CHR 0xEF, CHR 0xBF, CHR 0xBD]]"
    by (simp only: e json_string_invalid)
  have 3: "map ID (news ?a) = [[CHR 0xFF], [CHR 0xFE]]"
    by (simp only: n) (simp add: item_def)
  have 4: "[[CHR 0xEF, CHR 0xBF, CHR 0xBD], [CHR 0xEF, CHR 0xBF, CHR 0xBD]] \<noteq> [[CHR 0xFF], [CHR 0xFE]]"
    by simp
  show ?thesis using r 3 ok 1 2 4 by (intro conjI)
qed

section \<open>Cache-aside consistency\<close>







section \<open>Limits of the HTTP handler\<close>

lemma Atoi_examples:
  "Atoi ''5'' = Some 5" "Atoi ''1000'' = Some 1000" "Atoi ''0'' = Some 0" "Atoi ''-3'' = Some (- 3)"
  "Atoi ''abc'' = None" "Atoi '''' = None" "Atoi ''1001'' = Some 1001" "Atoi ''+7'' = Some 7"
  by (simp_all add: Atoi_def unsigned_value_def)

lemma ParseQuery_examples:
  "ParseQuery '''' = []"
  "ParseQuery ''limit=0'' = [(''limit'', ''0'')]"
  "ParseQuery ''limit=abc'' = [(''limit'', ''abc'')]"
  "ParseQuery ''limit='' = [(''limit'', '''')]"
  "ParseQuery ''limit'' = [(''limit'', '''')]"
  "ParseQuery ''limit=%zz'' = []"
  "ParseQuery ''limit=5;x=1'' = []"
  "ParseQuery ''x=1&&limit=7&limit=8'' = [(''x'', ''1''), (''limit'', ''7''), (''limit'', ''8'')]"
  by (simp_all add: ParseQuery_def parse_pair_def List.map_filter_simps ishex_def unhex_def)

lemma ParseQuery_escapes:
  "ParseQuery ''limit=%31%30&x=a+b'' = [(''limit'', ''10''), (''x'', ''a b'')]"
  by code_simp

text \<open>
  Claim C10, as amended. \<open>GetNews\<close> calls the provider's \<open>GetLatestNews\<close> at most
  once and only with a limit from 1 to 1000, 100 when the value that
  \<open>r.URL.Query().Get("limit")\<close> returns is empty: the parameter is absent, its value is
  empty, or the parse of the query dropped its pair (a pair that does not unescape or
  that holds a semicolon). A GET request for which that value is not empty and is not an
  integer from 1 to 1000 is answered with status 400, without a call of the provider; a
  request with another method is answered with status 405, without a call. With the
  aggregator as the provider the handler never panics: it never reaches the
  negative-limit branch of \<open>LimitTo\<close>. This holds whatever the parser of the query and
  \<open>strconv.Atoi\<close> return.
\<close>

theorem GetNews_limits:
  "(\<forall>l\<in>set (snd (GetNews query atoi provider r)). 1 \<le> l \<and> l \<le> 1000) \<and>
   length (snd (GetNews query atoi provider r)) \<le> 1 \<and>
   (Method r = ''GET'' \<and> Values_Get (query (RawQuery r)) ''limit'' = [] \<longrightarrow>
      snd (GetNews query atoi provider r) = [100]) \<and>
   (Method r = ''GET'' \<and> Values_Get (query (RawQuery r)) ''limit'' \<noteq> [] \<and>
    (\<forall>l. atoi (Values_Get (query (RawQuery r)) ''limit'') = Some l \<longrightarrow> \<not> (1 \<le> l \<and> l \<le> 1000)) \<longrightarrow>
      GetNews query atoi provider r =
        (Inr (writeErrorResponse ''Invalid limit parameter. Must be between 1 and 1000'' 400), [])) \<and>
   (Method r \<noteq> ''GET'' \<longrightarrow>
      GetNews query atoi provider r = (Inr (writeErrorResponse ''Method not allowed'' 405), [])) \<and>
   (\<exists>reply. fst (GetNews query atoi (Aggregator_GetLatestNews a) r) = Inr reply)"
proof -
  have calls: "snd (serve_news p l) = [l]" for p l
    by (simp add: serve_news_def split: sum.split)
  have 1: "\<forall>l\<in>set (snd (GetNews query atoi provider r)). 1 \<le> l \<and> l \<le> 1000"
    by (auto simp: GetNews_def Let_def calls split: option.splits)
  have 2: "length (snd (GetNews query atoi provider r)) \<le> 1"
    by (auto simp: GetNews_def Let_def calls split: option.splits)
  have 3: "snd (GetNews query atoi provider r) = [100]"
    if "Method r = ''GET'' \<and> Values_Get (query (RawQuery r)) ''limit'' = []"
    using that by (simp add: GetNews_def calls)
  have 4: "GetNews query atoi provider r =
        (Inr (writeErrorResponse ''Invalid limit parameter. Must be between 1 and 1000'' 400), [])"
    if "Method r = ''GET'' \<and> Values_Get (query (RawQuery r)) ''limit'' \<noteq> [] \<and>
      (\<forall>l. atoi (Values_Get (query (RawQuery r)) ''limit'') = Some l \<longrightarrow> \<not> (1 \<le> l \<and> l \<le> 1000))"
    using that by (auto simp: GetNews_def Let_def split: option.splits)
  have 5: "GetNews query atoi provider r = (Inr (writeErrorResponse ''Method not allowed'' 405), [])"
    if "Method r \<noteq> ''GET''"
    using that by (simp add: GetNews_def)
  have ok: "\<exists>reply. fst (serve_news (Aggregator_GetLatestNews a) l) = Inr reply" if "0 \<le> l" for l
    using that by (simp add: serve_news_def Aggregator_GetLatestNews_def LimitTo_nonneg)
  have 6: "\<exists>reply. fst (GetNews query atoi (Aggregator_GetLatestNews a) r) = Inr reply"
    by (auto simp: GetNews_def Let_def ok split: option.splits)
  show ?thesis using 1 2 3 4 5 6 by blast
qed

text \<open>
  Claim C10 fails as stated on requests whose \<open>limit\<close> parameter is present and is
  not an integer from 1 to 1000: a POST request with \<open>limit=0\<close> is answered with 405,
  not 400; the GET requests with \<open>limit=\<close>, with \<open>limit=%zz\<close> and with
  \<open>limit=5;x=1\<close> are answered with 200, after a call of the provider with the default
  limit 100.
\<close>

theorem GetNews_counterexample:
  "GetNews ParseQuery Atoi (Aggregator_GetLatestNews (New None :: unit Aggregator))
      \<lparr>Method = ''POST'', RawQuery = ''limit=0''\<rparr>
     = (Inr \<lparr>status = 405, body = ErrorResponse ''Method not allowed'' 405 ''v1''\<rparr>, []) \<and>
   GetNews ParseQuery Atoi (Aggregator_GetLatestNews (New None :: unit Aggregator))
      \<lparr>Method = ''GET'', RawQuery = ''limit=''\<rparr>
     = (Inr \<lparr>status = 200, body = NewsResponse 0 [] ''v1''\<rparr>, [100]) \<and>
   GetNews ParseQuery Atoi (Aggregator_GetLatestNews (New None :: unit Aggregator))
      \<lparr>Method = ''GET'', RawQuery = ''limit=%zz''\<rparr>
     = (Inr \<lparr>status = 200, body = NewsResponse 0 [] ''v1''\<rparr>, [100]) \<and>
   GetNews ParseQuery Atoi (Aggregator_GetLatestNews (New None :: unit Aggregator))
      \<lparr>Method = ''GET'', RawQuery = ''limit=5;x=1''\<rparr>
     = (Inr \<lparr>status = 200, body = NewsResponse 0 [] ''v1''\<rparr>, [100])"
  by (simp add: GetNews_def ParseQuery_examples Values_Get_def writeErrorResponse_def serve_news_def
      Aggregator_GetLatestNews_def LimitTo_def New_def)

theorem GetNews_limits_witness:
  "GetNews ParseQuery Atoi (Aggregator_GetLatestNews (New None :: unit Aggregator))
      \<lparr>Method = ''GET'', RawQuery = ''limit=0''\<rparr>
     = (Inr (writeErrorResponse ''Invalid limit parameter. Must be between 1 and 1000'' 400), []) \<and>
   GetNews ParseQuery Atoi (Aggregator_GetLatestNews (New None :: unit Aggregator))
      \<lparr>Method = ''GET'', RawQuery = ''limit=abc''\<rparr>
     = (Inr (writeErrorResponse ''Invalid limit parameter. Must be between 1 and 1000'' 400), []) \<and>
   snd (GetNews ParseQuery Atoi (Aggregator_GetLatestNews (New None :: unit Aggregator))
      \<lparr>Method = ''GET'', RawQuery = ''''\<rparr>) = [100] \<and>
   snd (GetNews ParseQuery Atoi (Aggregator_GetLatestNews (New None :: unit Aggregator))
      \<lparr>Method = ''GET'', RawQuery = ''limit=%zz''\<rparr>) = [100] \<and>
   GetNews ParseQuery Atoi (Aggregator_GetLatestNews (New None :: unit Aggregator))
      \<lparr>Method = ''DELETE'', RawQuery = ''''\<rparr>
     = (Inr (writeErrorResponse ''Method not allowed'' 405), [])"
proof -
  let ?p = "Aggregator_GetLatestNews (New None :: unit Aggregator)"
  have a: "Atoi ''0'' = Some 0" "Atoi ''abc'' = None"
    by (simp_all add: Atoi_def unsigned_value_def)
  note t = GetNews_limits [of ParseQuery Atoi ?p _ "New None :: unit Aggregator"]
  note t3 = t [THEN conjunct2, THEN conjunct2, THEN conjunct1]
  note t4 = t [THEN conjunct2, THEN conjunct2, THEN conjunct2, THEN conjunct1]
  note t5 = t [THEN conjunct2, THEN conjunct2, THEN conjunct2, THEN conjunct2, THEN conjunct1]
  have 1: "GetNews ParseQuery Atoi ?p \<lparr>Method = ''GET'', RawQuery = ''limit=0''\<rparr>
     = (Inr (writeErrorResponse ''Invalid limit parameter. Must be between 1 and 1000'' 400), [])"
    by (rule t4 [THEN mp]) (simp add: Values_Get_def ParseQuery_examples a)
  have 2: "GetNews ParseQuery Atoi ?p \<lparr>Method = ''GET'', RawQuery = ''limit=abc''\<rparr>
     = (Inr (writeErrorResponse ''Invalid limit parameter. Must be between 1 and 1000'' 400), [])"
    by (rule t4 [THEN mp]) (simp add: Values_Get_def ParseQuery_examples a)
  have 3: "snd (GetNews ParseQuery Atoi ?p \<lparr>Method = ''GET'', RawQuery = ''''\<rparr>) = [100]"
    by (rule t3 [THEN mp]) (simp add: Values_Get_def ParseQuery_examples)
  have 4: "snd (GetNews ParseQuery Atoi ?p \<lparr>Method = ''GET'', RawQuery = ''limit=%zz''\<rparr>) = [100]"
    by (rule t3 [THEN mp]) (simp add: Values_Get_def ParseQuery_examples)
  have 5: "GetNews ParseQuery Atoi ?p \<lparr>Method = ''DELETE'', RawQuery = ''''\<rparr>
     = (Inr (writeErrorResponse ''Method not allowed'' 405), [])"
    by (rule t5 [THEN mp]) simp
  show ?thesis using 1 2 3 4 5 by simp
qed

end
